theory Spec2Isabelle
  imports Complex_Main "HOL-Library.Sublist" "HOL-Library.AList" "HOL-Library.Multiset"
begin

section \<open>Virtual Planner: access gate, retrieval and citation rewriting\<close>

text \<open>
  The repository holds several revisions of one \<^verbatim>\<open>server.js\<close>. Two of them carry
  the access gate, the keyword retrieval and the citation rewriter: the revision
  "with Admin Override" (second document of \<^verbatim>\<open>src/unnamed/part_001\<close>) and the revision
  "robust errors + logo-friendly + clear logs" (first document of
  \<^verbatim>\<open>src/unnamed/part_002\<close>). Definitions without a suffix embed the first of the
  two; a definition with the suffix \<open>_r2\<close> embeds the function of the same name of the
  second, where the two are written differently.
\<close>

subsection \<open>Strings\<close>

text \<open>
  A JavaScript string is the list of its UTF-16 code units, each a natural number (a
  code unit is below \<open>0x10000\<close>; nothing here depends on that bound). \<^verbatim>\<open>s.length\<close> is
  the length of the list, and the regular expressions of the source, which are written
  without the flag \<^verbatim>\<open>u\<close>, read one code unit at a time. \<open>str\<close> writes an ASCII literal.
\<close>

type_synonym jsstring = "nat list"

definition str :: "string \<Rightarrow> jsstring" where
  "str cs = map of_char cs"

text \<open>
  \<^verbatim>\<open>String.prototype.toLowerCase\<close>. A string whose code units are all below U+0100 is
  lower-cased unit by unit: \<^verbatim>\<open>A-Z\<close> and U+00C0 to U+00DE, without the multiplication
  sign U+00D7, move up by \<open>0x20\<close>, every other unit stays. For any other string the result
  is the library's (its case tables, the dotted capital I that becomes two units, the
  final sigma): the library function is the parameter \<open>lib\<close>, about which nothing is
  assumed.
\<close>

definition lowerLatin1 :: "nat \<Rightarrow> nat" where
  "lowerLatin1 c =
     (if (0x41 \<le> c \<and> c \<le> 0x5A) \<or> (0xC0 \<le> c \<and> c \<le> 0xDE \<and> c \<noteq> 0xD7)
      then c + 0x20 else c)"

definition toLowerCase :: "(jsstring \<Rightarrow> jsstring) \<Rightarrow> jsstring \<Rightarrow> jsstring" where
  "toLowerCase lib s = (if list_all (\<lambda>c. c < 0x100) s then map lowerLatin1 s else lib s)"

text \<open>
  The class \<^verbatim>\<open>[a-z0-9]\<close> under the flag \<^verbatim>\<open>i\<close>: the ASCII letters of both cases and the
  digits (without the flag \<^verbatim>\<open>u\<close> no unit beyond ASCII is folded onto an ASCII letter).
\<close>

definition isAlnum :: "nat \<Rightarrow> bool" where
  "isAlnum c =
     ((0x30 \<le> c \<and> c \<le> 0x39) \<or> (0x41 \<le> c \<and> c \<le> 0x5A) \<or> (0x61 \<le> c \<and> c \<le> 0x7A))"

text \<open>
  The word characters of \<^verbatim>\<open>\b\<close> in a regular expression without the flag \<^verbatim>\<open>u\<close>:
  \<^verbatim>\<open>[A-Za-z0-9_]\<close>.
\<close>

definition isWordChar :: "nat \<Rightarrow> bool" where
  "isWordChar c = (isAlnum c \<or> c = 0x5F)"

text \<open>
  The code units \<^verbatim>\<open>String.prototype.trim\<close> removes: the white space of the language
  (tab, vertical tab, form feed, space, no-break space U+00A0, the byte order mark
  U+FEFF and the space separators U+1680, U+2000 to U+200A, U+202F, U+205F, U+3000) and
  its line terminators (line feed, carriage return, U+2028, U+2029).
\<close>

definition isSpace :: "nat \<Rightarrow> bool" where
  "isSpace c =
     (c \<in> set [0x09, 0x0A, 0x0B, 0x0C, 0x0D, 0x20, 0xA0, 0x1680, 0x2028, 0x2029, 0x202F,
                0x205F, 0x3000, 0xFEFF]
      \<or> (0x2000 \<le> c \<and> c \<le> 0x200A))"

definition trim :: "jsstring \<Rightarrow> jsstring" where
  "trim s = rev (dropWhile isSpace (rev (dropWhile isSpace s)))"

text \<open>\<^verbatim>\<open>String.prototype.endsWith\<close>.\<close>

definition endsWith :: "jsstring \<Rightarrow> jsstring \<Rightarrow> bool" where
  "endsWith s suf = (length suf \<le> length s \<and> drop (length s - length suf) s = suf)"

text \<open>
  A value that may be \<^verbatim>\<open>undefined\<close> (a query parameter, a field of a configuration
  object, an environment variable) is a \<^typ>\<open>jsstring option\<close>. \<open>orEmpty v\<close> is
  \<^verbatim>\<open>(v || "").toString()\<close>, and \<open>falsy v\<close> is \<^verbatim>\<open>!v\<close>. A query parameter given
  once is a string; a parameter repeated in the URL, which the framework turns into an
  array, is left out.
\<close>

definition orEmpty :: "jsstring option \<Rightarrow> jsstring" where
  "orEmpty v = (case v of None \<Rightarrow> [] | Some s \<Rightarrow> s)"

definition falsy :: "jsstring option \<Rightarrow> bool" where
  "falsy v = (case v of None \<Rightarrow> True | Some s \<Rightarrow> s = [])"

subsection \<open>Tenant configuration and the access gate\<close>

text \<open>
  One entry of \<^verbatim>\<open>config/cities.json\<close>, with the fields the gate reads: \<^verbatim>\<open>token\<close>,
  \<^verbatim>\<open>start\<close>, \<^verbatim>\<open>end\<close> and \<^verbatim>\<open>planner\<close>. A field the entry lacks is \<open>None\<close>.
\<close>

record city_cfg =
  token :: "jsstring option"
  start :: "jsstring option"
  end' :: "jsstring option"
  planner :: "jsstring option"

text \<open>
  The process: the parsed \<^verbatim>\<open>cities\<close> object, the flag \<^verbatim>\<open>runtimeAccessEnabled\<close>, the
  clock read by \<^verbatim>\<open>new Date()\<close> (milliseconds since the epoch), the library's date
  parser \<^verbatim>\<open>new Date(iso)\<close>, whose result is \<open>None\<close> for an invalid date (every
  comparison with an invalid date is false), and the library's \<^verbatim>\<open>toLowerCase\<close>.
\<close>

record process =
  cities :: "jsstring \<rightharpoonup> city_cfg"
  runtimeAccessEnabled :: bool
  now :: int
  parseDate :: "jsstring \<Rightarrow> int option"
  libLower :: "jsstring \<Rightarrow> jsstring"

record gate_req =
  query_city :: "jsstring option"
  query_token :: "jsstring option"

text \<open>
  The gate's outcomes: \<^verbatim>\<open>404 Unknown city\<close>, the closed page with status 403
  (\<^verbatim>\<open>sendClosed\<close>), \<^verbatim>\<open>401 Unauthorized\<close>, and \<^verbatim>\<open>next()\<close> with \<^verbatim>\<open>req.city\<close> and
  \<^verbatim>\<open>req.planner\<close> set. The specification calls the first three UnknownTenant,
  ServiceSuspended and InvalidToken.
\<close>

datatype gate_res =
  UnknownCity404
  | Closed403
  | Unauthorized401
  | Next jsstring "jsstring option"

text \<open>
  \<^verbatim>\<open>function getCityConfig(city) { return cities[city] || null; }\<close>. The object
  \<^verbatim>\<open>cities\<close> comes from \<^verbatim>\<open>JSON.parse\<close>, so for a name it does not hold itself it
  answers with what it inherits from \<^verbatim>\<open>Object.prototype\<close>: a function, or the prototype
  itself, for the twelve names below, and \<^verbatim>\<open>undefined\<close> for any other. Every field the
  gate reads of such a value is \<^verbatim>\<open>undefined\<close>.
\<close>

definition inheritedKeys :: "jsstring list" where
  "inheritedKeys =
     [str ''constructor'', str ''__proto__'', str ''hasOwnProperty'', str ''isPrototypeOf'',
      str ''propertyIsEnumerable'', str ''toString'', str ''toLocaleString'', str ''valueOf'',
      str ''__defineGetter__'', str ''__defineSetter__'', str ''__lookupGetter__'',
      str ''__lookupSetter__'']"

definition inheritedCfg :: city_cfg where
  "inheritedCfg = \<lparr>token = None, start = None, end' = None, planner = None\<rparr>"

definition getCityConfig :: "(jsstring \<rightharpoonup> city_cfg) \<Rightarrow> jsstring \<Rightarrow> city_cfg option" where
  "getCityConfig cs city =
     (case cs city of
        Some cfg \<Rightarrow> Some cfg
      | None \<Rightarrow> if city \<in> set inheritedKeys then Some inheritedCfg else None)"

definition isWithinWindow ::
    "(jsstring \<Rightarrow> int option) \<Rightarrow> int \<Rightarrow> jsstring option \<Rightarrow> jsstring option \<Rightarrow> bool" where
  "isWithinWindow parse nw startIso endIso =
     (if falsy startIso \<or> falsy endIso then True
      else
        (case (parse (orEmpty startIso), parse (orEmpty endIso)) of
           (Some st, Some en) \<Rightarrow> st \<le> nw \<and> nw \<le> en
         | _ \<Rightarrow> False))"

definition gate :: "process \<Rightarrow> gate_req \<Rightarrow> gate_res" where
  "gate p req =
     (let cityRaw = trim (toLowerCase (libLower p) (orEmpty (query_city req)));
          tokenQ = trim (orEmpty (query_token req))
      in
        case getCityConfig (cities p) cityRaw of
          None \<Rightarrow> UnknownCity404
        | Some cfg \<Rightarrow>
            if \<not> runtimeAccessEnabled p then Closed403
            else if tokenQ = [] \<or> Some tokenQ \<noteq> token cfg then Unauthorized401
            else if \<not> isWithinWindow (parseDate p) (now p) (start cfg) (end' cfg)
              then Closed403
            else Next cityRaw (planner cfg))"

text \<open>
  The second revision's gate: the same checks in the same order; only \<^verbatim>\<open>req.planner\<close>
  differs (\<^verbatim>\<open>cfg.planner || "Senior Planner"\<close>).
\<close>

definition gate_r2 :: "process \<Rightarrow> gate_req \<Rightarrow> gate_res" where
  "gate_r2 p req =
     (let city = trim (toLowerCase (libLower p) (orEmpty (query_city req)));
          tokenQ = trim (orEmpty (query_token req))
      in
        case getCityConfig (cities p) city of
          None \<Rightarrow> UnknownCity404
        | Some cfg \<Rightarrow>
            if \<not> runtimeAccessEnabled p then Closed403
            else if tokenQ = [] \<or> Some tokenQ \<noteq> token cfg then Unauthorized401
            else if \<not> isWithinWindow (parseDate p) (now p) (start cfg) (end' cfg)
              then Closed403
            else Next city
              (Some (if falsy (planner cfg) then str ''Senior Planner''
                     else orEmpty (planner cfg))))"

text \<open>
  The tenant lookup of the revisions without a gate (\<^verbatim>\<open>src/server.js\<close>, lines 38 to 43,
  and the last document of \<^verbatim>\<open>src/unnamed/part_002\<close>, lines 315 to 320): the first
  configured key whose lower-case form equals the trimmed, lower-cased request. The keys
  are listed in the object's enumeration order.
\<close>

definition getCityConfig_find ::
    "(jsstring \<Rightarrow> jsstring) \<Rightarrow> (jsstring \<times> city_cfg) list \<Rightarrow> jsstring option
       \<Rightarrow> (jsstring \<times> city_cfg) option" where
  "getCityConfig_find lib entries name =
     (let wanted = toLowerCase lib (trim (orEmpty name))
      in List.find (\<lambda>(k, cfg). toLowerCase lib k = wanted) entries)"

subsection \<open>The admin toggle\<close>

text \<open>
  \<^verbatim>\<open>const ADMIN_KEY = String(process.env.ADMIN_KEY || "")\<close>, and the key a request
  presents: \<^verbatim>\<open>(req.query.key || req.body?.key || "").toString()\<close>.
\<close>

definition ADMIN_KEY :: "jsstring option \<Rightarrow> jsstring" where
  "ADMIN_KEY envValue = orEmpty envValue"

record admin_req =
  query_key :: "jsstring option"
  body_key :: "jsstring option"

definition presentedKey :: "admin_req \<Rightarrow> jsstring" where
  "presentedKey req =
     (if \<not> falsy (query_key req) then orEmpty (query_key req)
      else if \<not> falsy (body_key req) then orEmpty (body_key req)
      else [])"

text \<open>\<open>adminAuth\<close> is true when the middleware calls \<^verbatim>\<open>next()\<close>, false when it answers 401.\<close>

definition adminAuth :: "jsstring \<Rightarrow> admin_req \<Rightarrow> bool" where
  "adminAuth adminKey req =
     (if adminKey = [] \<or> presentedKey req \<noteq> adminKey then False else True)"

text \<open>
  The handler of \<^verbatim>\<open>POST /admin/toggle\<close> behind \<open>adminAuth\<close> collects the body from the
  request's \<^verbatim>\<open>data\<close> events and acts on \<^verbatim>\<open>end\<close>. What it meets is one of three:
  the stream was read to its end before the handler ran (\<^verbatim>\<open>express.json()\<close> does so for
  a body of JSON content type), so \<^verbatim>\<open>end\<close> never comes, no answer is sent and the flag is
  not written; the \<^verbatim>\<open>try\<close> block throws; or it computes \<^verbatim>\<open>!!parsed.enabled\<close>, writes it
  to the flag and answers with it. The result is the response and the new value of the
  flag.
\<close>

datatype toggle_body =
  Consumed
  | Unparsable
  | Parsed bool

datatype admin_res =
  AdminUnauthorized401
  | Enabled bool
  | BadJson400
  | NoResponse

definition adminToggle ::
    "jsstring \<Rightarrow> admin_req \<Rightarrow> toggle_body \<Rightarrow> bool \<Rightarrow> admin_res \<times> bool" where
  "adminToggle adminKey req body flag =
     (if \<not> adminAuth adminKey req then (AdminUnauthorized401, flag)
      else
        (case body of
           Consumed \<Rightarrow> (NoResponse, flag)
         | Unparsable \<Rightarrow> (BadJson400, flag)
         | Parsed val \<Rightarrow> (Enabled val, val)))"

text \<open>
  The requests that reach a route of the server, and what each does to the flag:
  the gated routes and the admin page only read it.
\<close>

datatype request =
  GateRequest gate_req
  | AdminPage admin_req
  | AdminToggle admin_req toggle_body

fun serve :: "jsstring \<Rightarrow> bool \<Rightarrow> request \<Rightarrow> bool" where
  "serve adminKey flag (GateRequest req) = flag"
| "serve adminKey flag (AdminPage req) = flag"
| "serve adminKey flag (AdminToggle req body) = snd (adminToggle adminKey req body flag)"

definition serveAll :: "jsstring \<Rightarrow> bool \<Rightarrow> request list \<Rightarrow> bool" where
  "serveAll adminKey flag reqs = foldl (serve adminKey) flag reqs"

subsection \<open>Keyword retrieval: \<^verbatim>\<open>sliceByKeywords\<close>\<close>

text \<open>
  \<^verbatim>\<open>q.split(/[^a-z0-9]+/i)\<close>: the pieces between the maximal runs of characters that are
  not alphanumeric, the empty first or last piece included.
\<close>

function splitNonAlnum :: "jsstring \<Rightarrow> jsstring \<Rightarrow> jsstring list" where
  "splitNonAlnum cur [] = [cur]"
| "splitNonAlnum cur (c # cs) =
     (if isAlnum c then splitNonAlnum (cur @ [c]) cs
      else cur # splitNonAlnum [] (dropWhile (\<lambda>d. \<not> isAlnum d) cs))"
  by pat_completeness auto
termination
  by (relation "measure (\<lambda>(cur, s). length s)")
    (auto simp add: less_Suc_eq_le length_dropWhile_le)

text \<open>\<^verbatim>\<open>Array.from(new Set(xs))\<close>: the first occurrence of each element, in order.\<close>

definition uniq :: "'a list \<Rightarrow> 'a list" where
  "uniq xs = foldl (\<lambda>acc x. if x \<in> set acc then acc else acc @ [x]) [] xs"

text \<open>
  The query terms of the first revision:
  \<^verbatim>\<open>Array.from(new Set(q.split(/[^a-z0-9]+/i).filter(Boolean).map(s => s.toLowerCase())))\<close>
  with \<^verbatim>\<open>q = (question || "").toLowerCase()\<close>.
\<close>

definition queryTerms :: "(jsstring \<Rightarrow> jsstring) \<Rightarrow> jsstring \<Rightarrow> jsstring list" where
  "queryTerms lib question =
     (let q = toLowerCase lib question
      in uniq (map (toLowerCase lib) (filter (\<lambda>s. s \<noteq> []) (splitNonAlnum [] q))))"

text \<open>
  The second revision does not lower-case the pieces again:
  \<^verbatim>\<open>Array.from(new Set(q.split(/[^a-z0-9]+/i).filter(Boolean)))\<close>.
\<close>

definition queryTerms_r2 :: "(jsstring \<Rightarrow> jsstring) \<Rightarrow> jsstring \<Rightarrow> jsstring list" where
  "queryTerms_r2 lib question =
     (let q = toLowerCase lib question
      in uniq (filter (\<lambda>s. s \<noteq> []) (splitNonAlnum [] q)))"

text \<open>
  \<^verbatim>\<open>\b\<close> at index \<open>i\<close> of \<open>s\<close>: exactly one of the characters before and after the
  index is a word character (the ends of the string count as non-word).
\<close>

definition wordBoundary :: "jsstring \<Rightarrow> nat \<Rightarrow> bool" where
  "wordBoundary s i =
     ((0 < i \<and> i \<le> length s \<and> isWordChar (s ! (i - 1)))
        \<noteq> (i < length s \<and> isWordChar (s ! i)))"

text \<open>
  The expression \<^verbatim>\<open>new RegExp(`\\b${escapeReg(t)}\\b`, "g")\<close> matches at index \<open>i\<close>:
  \<^verbatim>\<open>escapeReg\<close> escapes every metacharacter, so the pattern is the term itself, as a
  literal, between two word boundaries.
\<close>

definition matchesAt :: "jsstring \<Rightarrow> jsstring \<Rightarrow> nat \<Rightarrow> bool" where
  "matchesAt t s i =
     (wordBoundary s i \<and> take (length t) (drop i s) = t \<and> i + length t \<le> length s
      \<and> wordBoundary s (i + length t))"

text \<open>
  \<^verbatim>\<open>(lower.match(re) || []).length\<close> for a global expression: the matches found from
  index \<open>i\<close> on, each search starting where the last match ended (one further after an
  empty match).
\<close>

function countMatches :: "jsstring \<Rightarrow> jsstring \<Rightarrow> nat \<Rightarrow> nat" where
  "countMatches t s i =
     (if length s < i then 0
      else if matchesAt t s i
        then 1 + countMatches t s (i + (if t = [] then 1 else length t))
      else countMatches t s (i + 1))"
  by pat_completeness auto
termination
  by (relation "measure (\<lambda>(t, s, i). Suc (length s) - i)") (auto simp add: neq_Nil_conv)

text \<open>\<^verbatim>\<open>String.prototype.includes\<close>.\<close>

fun includes' :: "jsstring \<Rightarrow> jsstring \<Rightarrow> bool" where
  "includes' [] t = (t = [])"
| "includes' (c # cs) t = (prefix t (c # cs) \<or> includes' cs t)"

definition bonusTerms :: "jsstring list" where
  "bonusTerms =
     [str ''use'', str ''permitted'', str ''special'', str ''parking'', str ''definition'',
      str ''district'', str ''table'']"

text \<open>
  The score of one document: the two inner loops of \<^verbatim>\<open>sliceByKeywords\<close>. The scores
  are sums of whole numbers and of the constant 0.25, which the floating-point numbers of
  the source represent exactly; they are rationals here.
\<close>

definition scoreOf :: "(jsstring \<Rightarrow> jsstring) \<Rightarrow> jsstring list \<Rightarrow> jsstring \<Rightarrow> rat" where
  "scoreOf lib terms txt =
     (let lower = toLowerCase lib txt;
          hits = foldl (\<lambda>score t.
                   if length t < 3 then score else score + of_nat (countMatches t lower 0))
                 0 terms
      in foldl (\<lambda>score bonus. score + (if includes' lower bonus then 1 / 4 else 0))
           hits bonusTerms)"

record scored =
  file' :: jsstring
  text' :: jsstring
  score :: rat

text \<open>
  The corpus is the list \<^verbatim>\<open>Object.entries(allFilesMap)\<close>, in the object's enumeration
  order. \<open>scoredDocs\<close> is the array \<^verbatim>\<open>scored\<close> after
  \<^verbatim>\<open>scored.sort((a, b) => b.score - a.score)\<close>; the sort of the language is stable, so
  its result is the stable insertion sort by descending score. \<open>scoredDocs_r2\<close> is the
  same array of the second revision, which scores with its own terms.
\<close>

definition scoredDocs ::
    "(jsstring \<Rightarrow> jsstring) \<Rightarrow> (jsstring \<times> jsstring) list \<Rightarrow> jsstring \<Rightarrow> scored list" where
  "scoredDocs lib allFilesMap question =
     (let terms = queryTerms lib question
      in sort_key (\<lambda>d. - score d)
           (map (\<lambda>(f, t). \<lparr>file' = f, text' = t, score = scoreOf lib terms t\<rparr>) allFilesMap))"

definition scoredDocs_r2 ::
    "(jsstring \<Rightarrow> jsstring) \<Rightarrow> (jsstring \<times> jsstring) list \<Rightarrow> jsstring \<Rightarrow> scored list" where
  "scoredDocs_r2 lib allFilesMap question =
     (let terms = queryTerms_r2 lib question
      in sort_key (\<lambda>d. - score d)
           (map (\<lambda>(f, t). \<lparr>file' = f, text' = t, score = scoreOf lib terms t\<rparr>) allFilesMap))"

text \<open>The block pushed for one document: \<^verbatim>\<open>`--- ${s.file} ---\n${s.text.trim()}\n`\<close>.\<close>

definition block :: "scored \<Rightarrow> jsstring" where
  "block s = str ''--- '' @ file' s @ str '' ---'' @ [0x0A] @ trim (text' s) @ [0x0A]"

text \<open>
  The last loop of \<^verbatim>\<open>sliceByKeywords\<close>, with its state \<^verbatim>\<open>out\<close> and \<^verbatim>\<open>total\<close>:
  \<^verbatim>\<open>if (total >= maxChars) break; out.push(...); total += s.text.length;\<close>
\<close>

fun assembleLoop :: "int \<Rightarrow> jsstring list \<times> nat \<Rightarrow> scored list \<Rightarrow> jsstring list \<times> nat" where
  "assembleLoop maxChars (out, tot) [] = (out, tot)"
| "assembleLoop maxChars (out, tot) (s # ss) =
     (if maxChars \<le> int tot then (out, tot)
      else assembleLoop maxChars (out @ [block s], tot + length (text' s)) ss)"

text \<open>\<^verbatim>\<open>Array.prototype.join\<close>.\<close>

fun joinWith :: "jsstring \<Rightarrow> jsstring list \<Rightarrow> jsstring" where
  "joinWith sep [] = []"
| "joinWith sep [x] = x"
| "joinWith sep (x # y # ys) = x @ sep @ joinWith sep (y # ys)"

definition assemble :: "int \<Rightarrow> scored list \<Rightarrow> jsstring" where
  "assemble maxChars docs = joinWith [0x0A] (fst (assembleLoop maxChars ([], 0) docs))"

definition sliceByKeywords ::
    "(jsstring \<Rightarrow> jsstring) \<Rightarrow> (jsstring \<times> jsstring) list \<Rightarrow> jsstring \<Rightarrow> int \<Rightarrow> jsstring" where
  "sliceByKeywords lib allFilesMap question maxChars =
     assemble maxChars (scoredDocs lib allFilesMap question)"

text \<open>
  The second revision builds the context as one string:
  \<^verbatim>\<open>out += `--- ${s.file} ---\n${(s.text||"").trim()}\n\n`\<close>.
\<close>

fun assembleLoop_r2 :: "int \<Rightarrow> jsstring \<times> nat \<Rightarrow> scored list \<Rightarrow> jsstring \<times> nat" where
  "assembleLoop_r2 maxChars (out, tot) [] = (out, tot)"
| "assembleLoop_r2 maxChars (out, tot) (s # ss) =
     (if maxChars \<le> int tot then (out, tot)
      else assembleLoop_r2 maxChars
             (out @ block s @ [0x0A], tot + length (text' s)) ss)"

definition sliceByKeywords_r2 ::
    "(jsstring \<Rightarrow> jsstring) \<Rightarrow> (jsstring \<times> jsstring) list \<Rightarrow> jsstring \<Rightarrow> int \<Rightarrow> jsstring" where
  "sliceByKeywords_r2 lib allFilesMap question maxChars =
     fst (assembleLoop_r2 maxChars ([], 0) (scoredDocs_r2 lib allFilesMap question))"

subsection \<open>The file system and the loaders\<close>

text \<open>
  What the loaders use of the file system: \<^verbatim>\<open>process.cwd()\<close>, \<^verbatim>\<open>fs.readdirSync\<close>,
  \<^verbatim>\<open>fs.readFileSync(p, "utf8")\<close> and \<^verbatim>\<open>fs.statSync(p).isDirectory()\<close>. A call that
  throws has the result \<open>None\<close>. A path is the list of segments given to
  \<^verbatim>\<open>path.join\<close>.
\<close>

record filesystem =
  ROOT :: jsstring
  readdirSync :: "jsstring list \<Rightarrow> jsstring list option"
  readFileSync :: "jsstring list \<Rightarrow> jsstring option"
  statIsDirectory :: "jsstring list \<Rightarrow> bool option"

text \<open>A function either returns or throws; \<open>Throws\<close> reaches the route's handler.\<close>

datatype 'a outcome =
  Returns 'a
  | Throws

text \<open>\<^verbatim>\<open>function read(filePath) { try { return fs.readFileSync(...); } catch { return ""; } }\<close>\<close>

definition read :: "filesystem \<Rightarrow> jsstring list \<Rightarrow> jsstring" where
  "read fs filePath = (case readFileSync fs filePath of Some s \<Rightarrow> s | None \<Rightarrow> [])"

text \<open>\<^verbatim>\<open>f.toLowerCase().endsWith(".txt")\<close>\<close>

definition isTxt :: "(jsstring \<Rightarrow> jsstring) \<Rightarrow> jsstring \<Rightarrow> bool" where
  "isTxt lib f = endsWith (toLowerCase lib f) (str ''.txt'')"

text \<open>
  \<open>loadAll\<close> of the first revision. The object \<^verbatim>\<open>map\<close> is an association list in
  insertion order: an assignment to a key it holds replaces the value in place.
\<close>

definition loadAll ::
    "(jsstring \<Rightarrow> jsstring) \<Rightarrow> filesystem \<Rightarrow> jsstring \<Rightarrow> (jsstring \<times> jsstring) list outcome" where
  "loadAll lib fs city =
     (let dir = [ROOT fs, str ''content'', city]
      in case readdirSync fs dir of
           None \<Rightarrow> Returns []
         | Some names \<Rightarrow>
             Returns (foldl (\<lambda>m f. AList.update f (read fs (dir @ [f])) m) []
                        (filter (isTxt lib) names)))"

text \<open>
  \<open>loadAll\<close> of the second revision: \<^verbatim>\<open>if (!dirExists(dir)) return {};\<close> and then
  \<^verbatim>\<open>fs.readdirSync(dir)\<close> outside any \<^verbatim>\<open>try\<close>.
\<close>

definition dirExists :: "filesystem \<Rightarrow> jsstring list \<Rightarrow> bool" where
  "dirExists fs p = (case statIsDirectory fs p of Some b \<Rightarrow> b | None \<Rightarrow> False)"

definition loadAll_r2 ::
    "(jsstring \<Rightarrow> jsstring) \<Rightarrow> filesystem \<Rightarrow> jsstring \<Rightarrow> (jsstring \<times> jsstring) list outcome" where
  "loadAll_r2 lib fs city =
     (let dir = [ROOT fs, str ''content'', city]
      in if \<not> dirExists fs dir then Returns []
         else
           (case readdirSync fs dir of
              None \<Rightarrow> Throws
            | Some names \<Rightarrow>
                Returns (foldl (\<lambda>m f. AList.update f (read fs (dir @ [f])) m) []
                           (filter (isTxt lib) names))))"

text \<open>\<^verbatim>\<open>raw.split(/\r?\n/)\<close> and \<^verbatim>\<open>line.split(",")\<close>.\<close>

fun splitLines :: "jsstring \<Rightarrow> jsstring \<Rightarrow> jsstring list" where
  "splitLines cur [] = [cur]"
| "splitLines cur (c # cs) =
     (if c = 0x0A then cur # splitLines [] cs
      else if c = 0x0D then
        (case cs of
           [] \<Rightarrow> splitLines (cur @ [c]) cs
         | d # ds \<Rightarrow>
             if d = 0x0A then cur # splitLines [] ds else splitLines (cur @ [c]) cs)
      else splitLines (cur @ [c]) cs)"

fun splitComma :: "jsstring \<Rightarrow> jsstring \<Rightarrow> jsstring list" where
  "splitComma cur [] = [cur]"
| "splitComma cur (c # cs) =
     (if c = 0x2C then cur # splitComma [] cs else splitComma (cur @ [c]) cs)"

text \<open>
  An entry of the citation index. The first revision always stores two strings; the
  second may store \<^verbatim>\<open>undefined\<close> for a column the row lacks.
\<close>

record citation =
  article :: "jsstring option"
  title :: "jsstring option"

text \<open>
  \<open>loadIndex\<close> of the first revision. The \<^verbatim>\<open>Map\<close> is an association list in
  insertion order; \<^verbatim>\<open>set\<close> on a key it holds replaces the value in place.
\<close>

definition indexRow ::
    "(jsstring \<Rightarrow> jsstring) \<Rightarrow> (jsstring \<times> citation) list \<Rightarrow> jsstring
       \<Rightarrow> (jsstring \<times> citation) list" where
  "indexRow lib out line =
     (let cols = map trim (splitComma [] line)
      in if length cols < 3 then out
         else if \<not> isTxt lib (cols ! 0) then out
         else AList.update (cols ! 0) \<lparr>article = Some (cols ! 1), title = Some (cols ! 2)\<rparr> out)"

definition loadIndex ::
    "(jsstring \<Rightarrow> jsstring) \<Rightarrow> filesystem \<Rightarrow> jsstring \<Rightarrow> (jsstring \<times> citation) list" where
  "loadIndex lib fs city =
     (let raw = read fs [ROOT fs, str ''content'', city, str ''index.csv'']
      in if trim raw = [] then []
         else foldl (indexRow lib) [] (filter (\<lambda>l. l \<noteq> []) (splitLines [] raw)))"

text \<open>
  \<open>loadIndex\<close> of the second revision:
  \<^verbatim>\<open>const [file, article, title] = line.split(",").map(s => s?.trim() ?? "");\<close> and
  \<^verbatim>\<open>if (!file?.toLowerCase().endsWith(".txt")) continue;\<close>. A column the row lacks is
  destructured to \<^verbatim>\<open>undefined\<close>.
\<close>

definition nthOpt :: "'a list \<Rightarrow> nat \<Rightarrow> 'a option" where
  "nthOpt xs i = (if i < length xs then Some (xs ! i) else None)"

definition indexRow_r2 ::
    "(jsstring \<Rightarrow> jsstring) \<Rightarrow> (jsstring \<times> citation) list \<Rightarrow> jsstring
       \<Rightarrow> (jsstring \<times> citation) list" where
  "indexRow_r2 lib m line =
     (let cols = map trim (splitComma [] line)
      in case nthOpt cols 0 of
           None \<Rightarrow> m
         | Some f \<Rightarrow>
             if \<not> isTxt lib f then m
             else AList.update f \<lparr>article = nthOpt cols 1, title = nthOpt cols 2\<rparr> m)"

definition loadIndex_r2 ::
    "(jsstring \<Rightarrow> jsstring) \<Rightarrow> filesystem \<Rightarrow> jsstring \<Rightarrow> (jsstring \<times> citation) list" where
  "loadIndex_r2 lib fs city =
     (let raw = read fs [ROOT fs, str ''content'', city, str ''index.csv'']
      in if trim raw = [] then []
         else foldl (indexRow_r2 lib) [] (filter (\<lambda>l. l \<noteq> []) (splitLines [] raw)))"

subsection \<open>Citation rewriting: \<^verbatim>\<open>prettyCitations\<close>\<close>

text \<open>
  The expression \<^verbatim>\<open>/\[([^\]]+\.txt)\]/\<close> matched at the head of a string. The group
  cannot hold a closing bracket, so a match ends at the first closing bracket after the
  opening one, and there is a match exactly when the text between the two is at least
  one character followed by \<^verbatim>\<open>.txt\<close>. The result is the group and the text after the
  match. The brackets are the code units \<open>0x5B\<close> and \<open>0x5D\<close>.
\<close>

definition notClose :: "nat \<Rightarrow> bool" where
  "notClose c = (c \<noteq> 0x5D)"

definition markerName :: "jsstring \<Rightarrow> bool" where
  "markerName f = (4 < length f \<and> endsWith f (str ''.txt''))"

definition markerAt :: "jsstring \<Rightarrow> (jsstring \<times> jsstring) option" where
  "markerAt s =
     (case s of
        [] \<Rightarrow> None
      | c # cs \<Rightarrow>
          if c \<noteq> 0x5B then None
          else
            (let f = takeWhile notClose cs; rest = dropWhile notClose cs
             in if rest \<noteq> [] \<and> markerName f then Some (f, tl rest) else None))"

text \<open>
  \<^verbatim>\<open>text.replace(/\[([^\]]+\.txt)\]/g, (_, f) => r(f))\<close>: the matches are found from left
  to right, each search starting after the last match.
\<close>

function replaceMarkers :: "(jsstring \<Rightarrow> jsstring) \<Rightarrow> jsstring \<Rightarrow> jsstring" where
  "replaceMarkers r [] = []"
| "replaceMarkers r (c # cs) =
     (case markerAt (c # cs) of
        Some (f, rest) \<Rightarrow> r f @ replaceMarkers r rest
      | None \<Rightarrow> c # replaceMarkers r cs)"
  by pat_completeness auto
termination
proof (relation "measure (\<lambda>(r, s). length s)")
  show "wf (measure (\<lambda>(r, s). length s))"
    by simp
next
  fix r :: "jsstring \<Rightarrow> jsstring" and c cs x f rest
  assume "markerAt (c # cs) = Some x" and "(f, rest) = x"
  then have "rest = tl (dropWhile notClose cs)" and "dropWhile notClose cs \<noteq> []"
    by (auto simp add: markerAt_def Let_def split: if_splits)
  then have "length rest < length (dropWhile notClose cs)"
    by (cases "dropWhile notClose cs") simp_all
  also have "\<dots> \<le> length cs"
    by (rule length_dropWhile_le)
  finally show "((r, rest), (r, c # cs)) \<in> measure (\<lambda>(r, s). length s)"
    by simp
next
  fix r :: "jsstring \<Rightarrow> jsstring" and c cs
  show "((r, cs), (r, c # cs)) \<in> measure (\<lambda>(r, s). length s)"
    by simp
qed

text \<open>
  \<^verbatim>\<open>f.replace(/\.txt$/i, "")\<close>: under the flag \<^verbatim>\<open>i\<close> the pattern matches the four last
  code units when they are a dot and the letters t, x, t in either ASCII case.
\<close>

definition lowerAscii :: "nat \<Rightarrow> nat" where
  "lowerAscii c = (if 0x41 \<le> c \<and> c \<le> 0x5A then c + 0x20 else c)"

definition stripTxt :: "jsstring \<Rightarrow> jsstring" where
  "stripTxt f =
     (if 4 \<le> length f \<and> map lowerAscii (drop (length f - 4) f) = str ''.txt''
      then take (length f - 4) f else f)"

text \<open>The dash of the label, U+2014.\<close>

definition emDash :: jsstring where
  "emDash = [0x2014]"

text \<open>\<^verbatim>\<open>index.get(f) || index.get(f.trim())\<close>\<close>

definition indexGet :: "(jsstring \<times> citation) list \<Rightarrow> jsstring \<Rightarrow> citation option" where
  "indexGet index f =
     (case map_of index f of Some meta \<Rightarrow> Some meta | None \<Rightarrow> map_of index (trim f))"

text \<open>The replacement computed for the group \<open>f\<close> of a match.\<close>

definition citationLabel :: "(jsstring \<times> citation) list \<Rightarrow> jsstring \<Rightarrow> jsstring" where
  "citationLabel index f =
     (case indexGet index f of
        None \<Rightarrow> stripTxt f
      | Some meta \<Rightarrow>
          (let a = orEmpty (article meta);
               t = orEmpty (title meta);
               aLabel = (if a \<noteq> [] then str ''Article '' @ a else str ''Article'')
           in trim (aLabel @ str '' '' @ emDash @ str '' '' @ t)))"

text \<open>
  \<open>rewriteWith\<close> is the body of \<^verbatim>\<open>prettyCitations\<close> after the index is loaded;
  the first revision handles the empty index on a branch of its own.
\<close>

definition rewriteWith :: "(jsstring \<times> citation) list \<Rightarrow> jsstring \<Rightarrow> jsstring" where
  "rewriteWith index txt =
     (if index = [] then replaceMarkers stripTxt txt
      else replaceMarkers (citationLabel index) txt)"

definition prettyCitations ::
    "(jsstring \<Rightarrow> jsstring) \<Rightarrow> filesystem \<Rightarrow> jsstring \<Rightarrow> jsstring \<Rightarrow> jsstring" where
  "prettyCitations lib fs city txt = rewriteWith (loadIndex lib fs city) txt"

definition rewriteWith_r2 :: "(jsstring \<times> citation) list \<Rightarrow> jsstring \<Rightarrow> jsstring" where
  "rewriteWith_r2 index txt = replaceMarkers (citationLabel index) txt"

definition prettyCitations_r2 ::
    "(jsstring \<Rightarrow> jsstring) \<Rightarrow> filesystem \<Rightarrow> jsstring \<Rightarrow> jsstring \<Rightarrow> jsstring" where
  "prettyCitations_r2 lib fs city txt = rewriteWith_r2 (loadIndex_r2 lib fs city) txt"

text \<open>
  A text holds a citation marker when the expression matches at one of its positions;
  \<open>markersOf\<close> lists the groups of the matches that \<open>replaceMarkers\<close> replaces.
\<close>

fun hasMarker :: "jsstring \<Rightarrow> bool" where
  "hasMarker [] = False"
| "hasMarker (c # cs) = (markerAt (c # cs) \<noteq> None \<or> hasMarker cs)"

function markersOf :: "jsstring \<Rightarrow> jsstring list" where
  "markersOf [] = []"
| "markersOf (c # cs) =
     (case markerAt (c # cs) of
        Some (f, rest) \<Rightarrow> f # markersOf rest
      | None \<Rightarrow> markersOf cs)"
  by pat_completeness auto
termination
proof (relation "measure length")
  show "wf (measure length)"
    by simp
next
  fix c :: nat and cs x f rest
  assume "markerAt (c # cs) = Some x" and "(f, rest) = x"
  then have "rest = tl (dropWhile notClose cs)" and "dropWhile notClose cs \<noteq> []"
    by (auto simp add: markerAt_def Let_def split: if_splits)
  then have "length rest < length (dropWhile notClose cs)"
    by (cases "dropWhile notClose cs") simp_all
  also have "\<dots> \<le> length cs"
    by (rule length_dropWhile_le)
  finally show "(rest, c # cs) \<in> measure length"
    by simp
next
  fix c :: nat and cs
  show "(cs, c # cs) \<in> measure length"
    by simp
qed

text \<open>The running total of the loop after the documents \<open>ds\<close> have been appended.\<close>

definition totalLen :: "scored list \<Rightarrow> nat" where
  "totalLen ds = sum_list (map (\<lambda>d. length (text' d)) ds)"

subsection \<open>The score in the specification's words\<close>

text \<open>
  A whole-word occurrence of the term \<open>t\<close> at index \<open>i\<close> of the lower-cased document
  \<open>lower\<close>: the characters that adjoin it, if any, are not in the class \<open>inWord\<close>. The
  score sums, over the distinct tokens of length three or more, the number of their
  whole-word occurrences, and adds a quarter for every bonus term that is a substring of
  the lower-cased document.
\<close>

definition wholeWordAt :: "(nat \<Rightarrow> bool) \<Rightarrow> jsstring \<Rightarrow> jsstring \<Rightarrow> nat \<Rightarrow> bool" where
  "wholeWordAt inWord t lower i =
     (i + length t \<le> length lower
      \<and> take (length t) (drop i lower) = t
      \<and> \<not> (0 < i \<and> inWord (lower ! (i - 1)))
      \<and> \<not> (i + length t < length lower \<and> inWord (lower ! (i + length t))))"

definition wholeWordCount :: "(nat \<Rightarrow> bool) \<Rightarrow> jsstring \<Rightarrow> jsstring \<Rightarrow> nat" where
  "wholeWordCount inWord t lower = card {i. wholeWordAt inWord t lower i}"

text \<open>
  The maximal runs of alphanumeric characters of a string. As a set they are
  deduplicated. The query tokens are the runs of the lower-cased query, lower-cased.
\<close>

definition alnumRuns :: "jsstring \<Rightarrow> jsstring set" where
  "alnumRuns x =
     {t. t \<noteq> [] \<and> list_all isAlnum t
         \<and> (\<exists>pre post. x = pre @ t @ post
              \<and> \<not> (pre \<noteq> [] \<and> isAlnum (last pre))
              \<and> \<not> (post \<noteq> [] \<and> isAlnum (hd post)))}"

definition queryTokens :: "(jsstring \<Rightarrow> jsstring) \<Rightarrow> jsstring \<Rightarrow> jsstring set" where
  "queryTokens lib question = toLowerCase lib ` alnumRuns (toLowerCase lib question)"

definition specScore ::
    "(nat \<Rightarrow> bool) \<Rightarrow> (jsstring \<Rightarrow> jsstring) \<Rightarrow> jsstring \<Rightarrow> jsstring \<Rightarrow> rat" where
  "specScore inWord lib question txt =
     (\<Sum>t | t \<in> queryTokens lib question \<and> 3 \<le> length t.
        of_nat (wholeWordCount inWord t (toLowerCase lib txt)))
     + (1 / 4) * of_nat (card {b \<in> set bonusTerms. sublist b (toLowerCase lib txt)})"

subsection \<open>Fixtures\<close>

text \<open>A small configuration used to run the definitions on concrete requests.\<close>

definition demoCfg :: city_cfg where
  "demoCfg =
     \<lparr>token = Some (str ''s3cret''), start = None, end' = None, planner = Some (str ''Pat'')\<rparr>"

definition demoWindowCfg :: city_cfg where
  "demoWindowCfg =
     \<lparr>token = Some (str ''s3cret''), start = Some (str ''2025-01-01''),
      end' = Some (str ''2025-12-31''), planner = None\<rparr>"

definition demoParse :: "jsstring \<Rightarrow> int option" where
  "demoParse s =
     (if s = str ''2025-01-01'' then Some 1000
      else if s = str ''2025-12-31'' then Some 2000 else None)"

definition demoProcess :: "bool \<Rightarrow> int \<Rightarrow> process" where
  "demoProcess enabled t =
     \<lparr>cities = [str ''riverton'' \<mapsto> demoCfg, str ''ironridge'' \<mapsto> demoWindowCfg],
      runtimeAccessEnabled = enabled, now = t, parseDate = demoParse,
      libLower = (\<lambda>s. s)\<rparr>"

definition demoReq :: "jsstring \<Rightarrow> jsstring \<Rightarrow> gate_req" where
  "demoReq c t = \<lparr>query_city = Some c, query_token = Some t\<rparr>"

definition demoDocA :: scored where
  "demoDocA = \<lparr>file' = str ''a.txt'', text' = str ''Parking is permitted'', score = 2\<rparr>"

definition demoDocB :: scored where
  "demoDocB =
     \<lparr>file' = str ''b.txt'', text' = str ''No mention of pets!'' @ [0x0A], score = 0\<rparr>"

definition demoIndex :: "(jsstring \<times> citation) list" where
  "demoIndex = [(str ''a.txt'', \<lparr>article = Some (str ''4''), title = Some (str ''Parking'')\<rparr>)]"

text \<open>
  A file system in which the tenant's directory exists and cannot be listed, and whose
  index file has a row of one column.
\<close>

definition demoFs :: filesystem where
  "demoFs =
     \<lparr>ROOT = str ''/srv'',
      readdirSync = (\<lambda>p. None),
      readFileSync =
        (\<lambda>p. if p = [str ''/srv'', str ''content'', str ''riverton'', str ''index.csv'']
              then Some (str ''a.txt'' @ [0x0A] @ str ''b.txt,7,Signs'') else None),
      statIsDirectory = (\<lambda>p. Some True)\<rparr>"

definition demoCorpus :: "(jsstring \<times> jsstring) list" where
  "demoCorpus =
     [(str ''b.txt'', str ''No mention of pets.''),
      (str ''a.txt'', str ''Parking is permitted in District B.'')]"

section \<open>Properties\<close>

subsection \<open>Evaluation of the string functions\<close>

lemmas string_eval =
  str_def toLowerCase_def lowerLatin1_def trim_def isSpace_def orEmpty_def falsy_def
  endsWith_def

lemma toLowerCase_latin1:
  "list_all (\<lambda>c. c < 0x100) s \<Longrightarrow> toLowerCase lib s = map lowerLatin1 s"
  by (simp add: toLowerCase_def)

lemma dropWhile_hd_id: "s = [] \<or> \<not> P (hd s) \<Longrightarrow> dropWhile P s = s"
  by (cases s) auto

lemma trim_id:
  assumes "s \<noteq> []" and "\<not> isSpace (hd s)" and "\<not> isSpace (last s)"
  shows "trim s = s"
proof -
  have "dropWhile isSpace s = s"
    using assms by (simp add: dropWhile_hd_id)
  moreover have "dropWhile isSpace (rev s) = rev s"
    using assms by (intro dropWhile_hd_id) (simp add: hd_rev)
  ultimately show ?thesis by (simp add: trim_def)
qed

text \<open>
  What \<open>trim\<close> returns: the string without a prefix and a suffix of white space, and
  what is left neither begins nor ends with white space.
\<close>

lemma trim_Nil: "trim [] = []"
  by (simp add: trim_def)

lemma rev_dropWhile_rev:
  "u = rev (dropWhile P (rev u)) @ rev (takeWhile P (rev u))"
proof -
  have "rev (takeWhile P (rev u) @ dropWhile P (rev u)) = u"
    by (simp only: takeWhile_dropWhile_id rev_rev_ident)
  then show ?thesis
    by (simp only: rev_append)
qed

lemma trim_decomp:
  "\<exists>a b. s = a @ trim s @ b \<and> list_all isSpace a \<and> list_all isSpace b"
proof -
  define u where "u = dropWhile isSpace s"
  have t: "trim s = rev (dropWhile isSpace (rev u))"
    by (simp only: trim_def u_def)
  have "s = takeWhile isSpace s @ u"
    by (simp only: u_def takeWhile_dropWhile_id)
  also have "u = trim s @ rev (takeWhile isSpace (rev u))"
    unfolding t by (rule rev_dropWhile_rev)
  finally have "s = takeWhile isSpace s @ trim s @ rev (takeWhile isSpace (rev u))" .
  moreover have "list_all isSpace (takeWhile isSpace s)"
    by (auto simp add: list_all_iff dest: set_takeWhileD)
  moreover have "list_all isSpace (rev (takeWhile isSpace (rev u)))"
    by (auto simp add: list_all_iff dest: set_takeWhileD)
  ultimately show ?thesis by blast
qed

lemma rev_dropWhile_rev_ends:
  assumes "u = [] \<or> \<not> P (hd u)" and "dropWhile P (rev u) \<noteq> []"
  shows "\<not> P (hd (rev (dropWhile P (rev u)))) \<and> \<not> P (last (rev (dropWhile P (rev u))))"
proof -
  let ?v = "dropWhile P (rev u)"
  from assms(2) have l: "\<not> P (hd ?v)"
    by (rule hd_dropWhile)
  from assms(2) have u: "u \<noteq> []"
    by auto
  have "u = rev ?v @ rev (takeWhile P (rev u))"
    by (rule rev_dropWhile_rev)
  then have "hd u = hd (rev ?v @ rev (takeWhile P (rev u)))"
    by (simp only:)
  with assms(2) have "hd u = hd (rev ?v)"
    by simp
  with assms(1) u have "\<not> P (hd (rev ?v))"
    by simp
  with l assms(2) show ?thesis
    by (simp add: last_rev)
qed

lemma trim_ends: "trim s = [] \<or> (\<not> isSpace (hd (trim s)) \<and> \<not> isSpace (last (trim s)))"
proof (cases "trim s = []")
  case True
  then show ?thesis by simp
next
  case False
  define u where "u = dropWhile isSpace s"
  have t: "trim s = rev (dropWhile isSpace (rev u))"
    by (simp only: trim_def u_def)
  have h: "u = [] \<or> \<not> isSpace (hd u)"
    unfolding u_def using hd_dropWhile [of isSpace s] by blast
  from False have "dropWhile isSpace (rev u) \<noteq> []"
    by (simp only: t rev_is_Nil_conv not_False_eq_True)
  with h have "\<not> isSpace (hd (trim s)) \<and> \<not> isSpace (last (trim s))"
    unfolding t by (rule rev_dropWhile_rev_ends)
  then show ?thesis ..
qed

lemma trim_idem: "trim (trim s) = trim s"
proof (cases "trim s = []")
  case True
  then show ?thesis by (simp only: trim_Nil)
next
  case False
  with trim_ends [of s] show ?thesis by (simp add: trim_id)
qed

subsection \<open>The access gate\<close>

lemma getCityConfig_configured: "cs c = Some cfg \<Longrightarrow> getCityConfig cs c = Some cfg"
  by (simp add: getCityConfig_def)

text \<open>
  Claim C1. For a configured tenant, while the runtime access flag is off, both
  revisions of the gate answer with the closed page (403) whatever token the request
  presents: absent, wrong or the tenant's own. The flag is tested before the token, so
  the answer does not depend on the token.
\<close>

theorem gate_kill_switch_before_token:
  assumes "cities p (trim (toLowerCase (libLower p) (orEmpty (query_city req)))) = Some cfg"
    and "\<not> runtimeAccessEnabled p"
  shows "gate p (req\<lparr>query_token := t\<rparr>) = Closed403
       \<and> gate_r2 p (req\<lparr>query_token := t\<rparr>) = Closed403"
  using assms by (simp add: gate_def gate_r2_def getCityConfig_configured)

theorem gate_kill_switch_before_token_witness:
  "gate (demoProcess False 0) (demoReq (str ''Riverton'') (str ''s3cret'')) = Closed403
   \<and> gate_r2 (demoProcess False 0) (demoReq (str ''Riverton'') (str ''s3cret'')) = Closed403
   \<and> gate (demoProcess False 0) (demoReq (str ''Riverton'') (str ''wrong'')) = Closed403
   \<and> gate_r2 (demoProcess False 0) (demoReq (str ''Riverton'') (str ''wrong'')) = Closed403
   \<and> Some (str ''s3cret'') = token demoCfg"
proof -
  have c: "cities (demoProcess False 0)
      (trim (toLowerCase (libLower (demoProcess False 0))
        (orEmpty (query_city (demoReq (str ''Riverton'') (str ''x'')))))) = Some demoCfg"
    by (simp add: demoProcess_def demoReq_def string_eval)
  have e: "\<not> runtimeAccessEnabled (demoProcess False 0)"
    by (simp add: demoProcess_def)
  have u: "(demoReq (str ''Riverton'') (str ''x''))\<lparr>query_token := Some t\<rparr>
      = demoReq (str ''Riverton'') t" for t
    by (simp add: demoReq_def)
  from gate_kill_switch_before_token [OF c e, of "Some (str ''s3cret'')"]
    gate_kill_switch_before_token [OF c e, of "Some (str ''wrong'')"]
  show ?thesis by (simp add: u demoCfg_def)
qed

text \<open>
  Claim C2, as the code has it. For a configured tenant with runtime access on, the gate
  answers 401 exactly when the presented token, after \<^verbatim>\<open>trim()\<close>, is empty (an absent,
  empty or all-blank token) or differs from the configured token; the comparison is
  that of the code units, so it is case-sensitive. A presented token is therefore let
  past the token check exactly when its trimmed form is not empty and is the configured
  token. No presented token is let through for a tenant whose configured token is the
  empty string, is absent, or itself begins or ends with white space.
\<close>

theorem gate_invalid_token:
  assumes "cities p (trim (toLowerCase (libLower p) (orEmpty (query_city req)))) = Some cfg"
    and "runtimeAccessEnabled p"
  shows "(gate p req = Unauthorized401)
           = (trim (orEmpty (query_token req)) = []
              \<or> Some (trim (orEmpty (query_token req))) \<noteq> token cfg)
       \<and> (gate_r2 p req = Unauthorized401)
           = (trim (orEmpty (query_token req)) = []
              \<or> Some (trim (orEmpty (query_token req))) \<noteq> token cfg)
       \<and> (token cfg = Some [] \<or> token cfg = None
            \<or> (\<exists>t. token cfg = Some t \<and> trim t \<noteq> t) \<longrightarrow>
            gate p req = Unauthorized401 \<and> gate_r2 p req = Unauthorized401)"
proof -
  have a: "(gate p req = Unauthorized401)
           = (trim (orEmpty (query_token req)) = []
              \<or> Some (trim (orEmpty (query_token req))) \<noteq> token cfg)"
    using assms by (auto simp add: gate_def getCityConfig_configured Let_def)
  have b: "(gate_r2 p req = Unauthorized401)
           = (trim (orEmpty (query_token req)) = []
              \<or> Some (trim (orEmpty (query_token req))) \<noteq> token cfg)"
    using assms by (auto simp add: gate_r2_def getCityConfig_configured Let_def)
  have c: "trim (orEmpty (query_token req)) = []
      \<or> Some (trim (orEmpty (query_token req))) \<noteq> token cfg"
    if "token cfg = Some [] \<or> token cfg = None \<or> (\<exists>t. token cfg = Some t \<and> trim t \<noteq> t)"
  proof (rule ccontr)
    assume "\<not> ?thesis"
    then have n: "trim (orEmpty (query_token req)) \<noteq> []"
      and e: "token cfg = Some (trim (orEmpty (query_token req)))"
      by simp_all
    from e have "\<forall>t. token cfg = Some t \<longrightarrow> trim t = t"
      by (simp add: trim_idem)
    with that n e show False by auto
  qed
  from a b c show ?thesis by blast
qed

theorem gate_invalid_token_witness:
  "gate (demoProcess True 0) (demoReq (str ''riverton'') (str ''S3CRET'')) = Unauthorized401
   \<and> gate_r2 (demoProcess True 0) (demoReq (str ''riverton'') (str ''S3CRET''))
       = Unauthorized401
   \<and> gate (demoProcess True 0) \<lparr>query_city = Some (str ''riverton''), query_token = None\<rparr>
       = Unauthorized401
   \<and> gate ((demoProcess True 0)
             \<lparr>cities := [str ''riverton'' \<mapsto> demoCfg\<lparr>token := Some []\<rparr>]\<rparr>)
        (demoReq (str ''riverton'') []) = Unauthorized401
   \<and> gate ((demoProcess True 0)
             \<lparr>cities := [str ''riverton'' \<mapsto> demoCfg\<lparr>token := Some (str '' s3cret'')\<rparr>]\<rparr>)
        (demoReq (str ''riverton'') (str '' s3cret'')) = Unauthorized401"
proof -
  have c: "cities (demoProcess True 0)
      (trim (toLowerCase (libLower (demoProcess True 0))
        (orEmpty (query_city (demoReq (str ''riverton'') t))))) = Some demoCfg" for t
    by (simp add: demoProcess_def demoReq_def string_eval)
  have c0: "cities (demoProcess True 0)
      (trim (toLowerCase (libLower (demoProcess True 0))
        (orEmpty (query_city \<lparr>query_city = Some (str ''riverton''), query_token = None\<rparr>))))
        = Some demoCfg"
    by (simp add: demoProcess_def string_eval)
  have c1: "cities ((demoProcess True 0)\<lparr>cities := [str ''riverton'' \<mapsto> demoCfg\<lparr>token := k\<rparr>]\<rparr>)
      (trim (toLowerCase
        (libLower ((demoProcess True 0)\<lparr>cities := [str ''riverton'' \<mapsto> demoCfg\<lparr>token := k\<rparr>]\<rparr>))
        (orEmpty (query_city (demoReq (str ''riverton'') t)))))
        = Some (demoCfg\<lparr>token := k\<rparr>)" for k t
    by (simp add: demoProcess_def demoReq_def string_eval)
  have e: "runtimeAccessEnabled (demoProcess True 0)"
    "runtimeAccessEnabled ((demoProcess True 0)\<lparr>cities := cs\<rparr>)" for cs
    by (simp_all add: demoProcess_def)
  have w: "trim (str '' s3cret'') \<noteq> str '' s3cret''"
    by (simp add: string_eval)
  from gate_invalid_token [OF c e(1), of "str ''S3CRET''"] gate_invalid_token [OF c0 e(1)]
    gate_invalid_token [OF c1 e(2), of "Some []" "[]"]
    gate_invalid_token [OF c1 e(2), of "Some (str '' s3cret'')" "str '' s3cret''"] w
  show ?thesis by (simp add: demoReq_def demoCfg_def string_eval)
qed

text \<open>
  The claim as the specification states it fails: a presented token that is not equal
  to the configured one, because it carries a leading blank or a leading no-break space,
  is let through.
\<close>

theorem gate_invalid_token_counterexample:
  "Some (str '' s3cret'') \<noteq> token demoCfg
   \<and> gate (demoProcess True 0) (demoReq (str ''riverton'') (str '' s3cret''))
       = Next (str ''riverton'') (Some (str ''Pat''))
   \<and> gate_r2 (demoProcess True 0) (demoReq (str ''riverton'') (str '' s3cret''))
       = Next (str ''riverton'') (Some (str ''Pat''))
   \<and> Some (0xA0 # str ''s3cret'') \<noteq> token demoCfg
   \<and> gate (demoProcess True 0) (demoReq (str ''riverton'') (0xA0 # str ''s3cret''))
       = Next (str ''riverton'') (Some (str ''Pat''))
   \<and> gate_r2 (demoProcess True 0) (demoReq (str ''riverton'') (0xA0 # str ''s3cret''))
       = Next (str ''riverton'') (Some (str ''Pat''))"
  by (simp add: gate_def gate_r2_def getCityConfig_def isWithinWindow_def demoProcess_def
      demoReq_def demoCfg_def string_eval)

text \<open>
  Claim C5 fails on the gate: the request's city is lower-cased, the configured keys are
  not, and the lookup \<^verbatim>\<open>cities[city]\<close> is exact. A tenant configured under the key
  \<^verbatim>\<open>Greenvale\<close> is unknown to both revisions of the gate under every spelling of the
  request, while the lookup of the revisions without a gate finds it.
\<close>

theorem gate_mixed_case_key_unknown:
  "gate \<lparr>cities = [str ''Greenvale'' \<mapsto> demoCfg], runtimeAccessEnabled = True, now = 0,
         parseDate = demoParse, libLower = lib\<rparr>
      (demoReq (str ''Greenvale'') (str ''s3cret'')) = UnknownCity404
   \<and> gate \<lparr>cities = [str ''Greenvale'' \<mapsto> demoCfg], runtimeAccessEnabled = True, now = 0,
         parseDate = demoParse, libLower = lib\<rparr>
      (demoReq (str ''greenvale'') (str ''s3cret'')) = UnknownCity404
   \<and> gate_r2 \<lparr>cities = [str ''Greenvale'' \<mapsto> demoCfg], runtimeAccessEnabled = True, now = 0,
         parseDate = demoParse, libLower = lib\<rparr>
      (demoReq (str ''Greenvale'') (str ''s3cret'')) = UnknownCity404
   \<and> getCityConfig_find lib [(str ''Greenvale'', demoCfg)] (Some (str ''greenvale''))
       = Some (str ''Greenvale'', demoCfg)"
  by (simp add: gate_def gate_r2_def getCityConfig_def inheritedKeys_def
      getCityConfig_find_def demoReq_def string_eval)

text \<open>
  What the gate does guarantee: a tenant configured under the lower-cased and trimmed
  form of the request's city is resolved, under every letter case of the request.
\<close>

lemma gate_lower_case_key_resolves:
  assumes "cities p (trim (toLowerCase (libLower p) (orEmpty (query_city req)))) = Some cfg"
  shows "gate p req \<noteq> UnknownCity404 \<and> gate_r2 p req \<noteq> UnknownCity404"
  using assms by (auto simp add: gate_def gate_r2_def getCityConfig_configured Let_def)

text \<open>
  Claim C8. \<open>isWithinWindow\<close> is true at every time when the tenant lacks a start or an
  end bound, so with runtime access on and an accepted token the gate lets the request
  through at every time. When both bounds are configured and parse to \<open>st\<close> and \<open>en\<close>,
  the gate lets the request through exactly at the times \<open>t\<close> with \<open>st \<le> t \<le> en\<close>, both
  bounds included, and answers with the closed page (403) exactly at the times before
  \<open>st\<close> or after \<open>en\<close>.
\<close>

theorem gate_window_inclusive:
  assumes "cities p (trim (toLowerCase (libLower p) (orEmpty (query_city req)))) = Some cfg"
    and "runtimeAccessEnabled p"
    and "trim (orEmpty (query_token req)) \<noteq> []"
    and "Some (trim (orEmpty (query_token req))) = token cfg"
  shows "(falsy (start cfg) \<or> falsy (end' cfg) \<longrightarrow>
            (\<forall>t. isWithinWindow (parseDate p) t (start cfg) (end' cfg))
            \<and> (\<forall>t. gate (p\<lparr>now := t\<rparr>) req
                     = Next (trim (toLowerCase (libLower p) (orEmpty (query_city req))))
                         (planner cfg))
            \<and> (\<forall>t. \<exists>c n. gate_r2 (p\<lparr>now := t\<rparr>) req = Next c n))
       \<and> (\<not> falsy (start cfg) \<and> \<not> falsy (end' cfg)
            \<and> parseDate p (orEmpty (start cfg)) = Some st
            \<and> parseDate p (orEmpty (end' cfg)) = Some en \<longrightarrow>
            (\<forall>t. isWithinWindow (parseDate p) t (start cfg) (end' cfg) = (st \<le> t \<and> t \<le> en))
            \<and> (\<forall>t. (gate (p\<lparr>now := t\<rparr>) req
                      = Next (trim (toLowerCase (libLower p) (orEmpty (query_city req))))
                          (planner cfg))
                     = (st \<le> t \<and> t \<le> en))
            \<and> (\<forall>t. (gate (p\<lparr>now := t\<rparr>) req = Closed403) = (t < st \<or> en < t))
            \<and> (\<forall>t. (gate_r2 (p\<lparr>now := t\<rparr>) req = Closed403) = (t < st \<or> en < t))
            \<and> (st \<le> en \<longrightarrow>
                  gate (p\<lparr>now := st\<rparr>) req \<noteq> Closed403
                  \<and> gate (p\<lparr>now := en\<rparr>) req \<noteq> Closed403
                  \<and> gate_r2 (p\<lparr>now := st\<rparr>) req \<noteq> Closed403
                  \<and> gate_r2 (p\<lparr>now := en\<rparr>) req \<noteq> Closed403))"
  using assms
  by (auto simp add: gate_def gate_r2_def getCityConfig_configured Let_def isWithinWindow_def)

theorem gate_window_inclusive_witness:
  "gate (demoProcess True 5) (demoReq (str ''riverton'') (str ''s3cret''))
     = Next (str ''riverton'') (Some (str ''Pat''))
   \<and> gate (demoProcess True 1000) (demoReq (str ''ironridge'') (str ''s3cret''))
       = Next (str ''ironridge'') None
   \<and> gate (demoProcess True 2000) (demoReq (str ''ironridge'') (str ''s3cret''))
       = Next (str ''ironridge'') None
   \<and> gate (demoProcess True 999) (demoReq (str ''ironridge'') (str ''s3cret'')) = Closed403
   \<and> gate_r2 (demoProcess True 2001) (demoReq (str ''ironridge'') (str ''s3cret''))
       = Closed403"
proof -
  have u: "(demoProcess True 0)\<lparr>now := t\<rparr> = demoProcess True t" for t
    by (simp add: demoProcess_def)
  have e: "runtimeAccessEnabled (demoProcess True 0)"
    by (simp add: demoProcess_def)
  have r: "cities (demoProcess True 0)
      (trim (toLowerCase (libLower (demoProcess True 0))
        (orEmpty (query_city (demoReq (str ''riverton'') (str ''s3cret'')))))) = Some demoCfg"
    by (simp add: demoProcess_def demoReq_def string_eval)
  have i: "cities (demoProcess True 0)
      (trim (toLowerCase (libLower (demoProcess True 0))
        (orEmpty (query_city (demoReq (str ''ironridge'') (str ''s3cret''))))))
        = Some demoWindowCfg"
    by (simp add: demoProcess_def demoReq_def string_eval)
  have rt: "trim (orEmpty (query_token (demoReq c (str ''s3cret'')))) \<noteq> []"
    "Some (trim (orEmpty (query_token (demoReq c (str ''s3cret''))))) = token demoCfg"
    "Some (trim (orEmpty (query_token (demoReq c (str ''s3cret''))))) = token demoWindowCfg"
    for c
    by (simp_all add: demoReq_def demoCfg_def demoWindowCfg_def string_eval)
  have nowin: "falsy (start demoCfg) \<or> falsy (end' demoCfg)"
    by (simp add: demoCfg_def falsy_def)
  have win: "\<not> falsy (start demoWindowCfg) \<and> \<not> falsy (end' demoWindowCfg)
      \<and> parseDate (demoProcess True 0) (orEmpty (start demoWindowCfg)) = Some 1000
      \<and> parseDate (demoProcess True 0) (orEmpty (end' demoWindowCfg)) = Some 2000"
    by (simp add: demoWindowCfg_def demoProcess_def demoParse_def falsy_def orEmpty_def
        str_def)
  from gate_window_inclusive [OF r e rt(1) rt(2)] nowin
  have a: "gate (demoProcess True 5) (demoReq (str ''riverton'') (str ''s3cret''))
      = Next (trim (toLowerCase (libLower (demoProcess True 0))
                (orEmpty (query_city (demoReq (str ''riverton'') (str ''s3cret''))))))
          (planner demoCfg)"
    by (simp add: u)
  from gate_window_inclusive [OF i e rt(1) rt(3), of 1000 2000] win
  have b: "(gate (demoProcess True t) (demoReq (str ''ironridge'') (str ''s3cret''))
          = Next (trim (toLowerCase (libLower (demoProcess True 0))
                    (orEmpty (query_city (demoReq (str ''ironridge'') (str ''s3cret''))))))
              (planner demoWindowCfg)) = (1000 \<le> t \<and> t \<le> 2000)"
    and c: "(gate (demoProcess True t) (demoReq (str ''ironridge'') (str ''s3cret''))
          = Closed403) = (t < 1000 \<or> 2000 < t)"
    and d: "(gate_r2 (demoProcess True t) (demoReq (str ''ironridge'') (str ''s3cret''))
          = Closed403) = (t < 1000 \<or> 2000 < t)" for t
    by (simp_all add: u)
  from a b [of 1000] b [of 2000] c [of 999] d [of 2001]
  show ?thesis
    by (simp add: demoReq_def demoCfg_def demoWindowCfg_def demoProcess_def string_eval)
qed

subsection \<open>The admin toggle\<close>

lemma adminAuth_empty_key: "\<not> adminAuth [] req"
  by (simp add: adminAuth_def)

lemma serve_empty_key: "serve [] flag r = flag"
  by (cases r) (simp_all add: adminToggle_def adminAuth_empty_key)

lemma serveAll_empty_key: "serveAll [] flag reqs = flag"
  unfolding serveAll_def by (induction reqs arbitrary: flag) (simp_all add: serve_empty_key)

text \<open>
  Claim C10. When \<^verbatim>\<open>ADMIN_KEY\<close> is unset or the empty string, \<open>adminAuth\<close> rejects every
  request, also one that presents the empty key; the toggle answers 401 and leaves the
  flag as it was, and no sequence of requests changes the flag.
\<close>

theorem admin_empty_key_fails_closed:
  assumes "falsy envValue"
  shows "\<not> adminAuth (ADMIN_KEY envValue) req
       \<and> adminToggle (ADMIN_KEY envValue) req parsed flag = (AdminUnauthorized401, flag)
       \<and> serveAll (ADMIN_KEY envValue) flag reqs = flag"
proof -
  from assms have k: "ADMIN_KEY envValue = []"
    by (simp add: ADMIN_KEY_def falsy_def orEmpty_def split: option.splits)
  show ?thesis
    by (simp add: k adminAuth_empty_key adminToggle_def serveAll_empty_key)
qed

theorem admin_empty_key_fails_closed_witness:
  "presentedKey \<lparr>query_key = Some [], body_key = None\<rparr> = ADMIN_KEY (Some [])
   \<and> \<not> adminAuth (ADMIN_KEY (Some [])) \<lparr>query_key = Some [], body_key = None\<rparr>
   \<and> adminToggle (ADMIN_KEY None) \<lparr>query_key = None, body_key = None\<rparr> (Parsed False) True
       = (AdminUnauthorized401, True)
   \<and> serveAll (ADMIN_KEY (Some [])) True
       [AdminToggle \<lparr>query_key = Some [], body_key = None\<rparr> (Parsed False),
        GateRequest (demoReq (str ''riverton'') (str ''s3cret'')),
        AdminToggle \<lparr>query_key = None, body_key = Some []\<rparr> Consumed] = True"
proof -
  have f: "falsy (Some [])" "falsy None"
    by (simp_all add: falsy_def)
  have k: "presentedKey \<lparr>query_key = Some [], body_key = None\<rparr> = ADMIN_KEY (Some [])"
    by (simp add: presentedKey_def ADMIN_KEY_def falsy_def orEmpty_def)
  from admin_empty_key_fails_closed [OF f(1)] admin_empty_key_fails_closed [OF f(2)] k
  show ?thesis by simp
qed

subsection \<open>Context assembly\<close>

lemma totalLen_simps:
  "totalLen [] = 0"
  "totalLen (d # ds) = length (text' d) + totalLen ds"
  by (simp_all add: totalLen_def)

lemma assembleLoop_prefix:
  "\<exists>n\<le>length docs.
     assembleLoop m (out, tot) docs
       = (out @ map block (take n docs), tot + totalLen (take n docs))
     \<and> assembleLoop_r2 m (out2, tot) docs
       = (out2 @ concat (map (\<lambda>d. block d @ [0x0A]) (take n docs)),
          tot + totalLen (take n docs))
     \<and> (\<forall>k<n. int (tot + totalLen (take k docs)) < m)
     \<and> (n < length docs \<longrightarrow> m \<le> int (tot + totalLen (take n docs)))"
proof (induction docs arbitrary: out out2 tot)
  case Nil
  then show ?case by (simp add: totalLen_def)
next
  case (Cons d ds)
  show ?case
  proof (cases "m \<le> int tot")
    case True
    then have "assembleLoop m (out, tot) (d # ds)
        = (out @ map block (take 0 (d # ds)), tot + totalLen (take 0 (d # ds)))
      \<and> assembleLoop_r2 m (out2, tot) (d # ds)
        = (out2 @ concat (map (\<lambda>d. block d @ [0x0A]) (take 0 (d # ds))),
           tot + totalLen (take 0 (d # ds)))
      \<and> (\<forall>k<0::nat. int (tot + totalLen (take k (d # ds))) < m)
      \<and> (0 < length (d # ds) \<longrightarrow> m \<le> int (tot + totalLen (take 0 (d # ds))))"
      by (simp add: totalLen_def)
    then show ?thesis by blast
  next
    case False
    from Cons.IH [of "out @ [block d]" "tot + length (text' d)" "out2 @ block d @ [0x0A]"]
    obtain n where n: "n \<le> length ds"
      and eq: "assembleLoop m (out @ [block d], tot + length (text' d)) ds
        = ((out @ [block d]) @ map block (take n ds),
           tot + length (text' d) + totalLen (take n ds))"
      and eq2: "assembleLoop_r2 m (out2 @ block d @ [0x0A], tot + length (text' d)) ds
        = ((out2 @ block d @ [0x0A]) @ concat (map (\<lambda>d. block d @ [0x0A]) (take n ds)),
           tot + length (text' d) + totalLen (take n ds))"
      and below: "\<forall>k<n. int (tot + length (text' d) + totalLen (take k ds)) < m"
      and stop: "n < length ds \<longrightarrow> m \<le> int (tot + length (text' d) + totalLen (take n ds))"
      by blast
    have a: "assembleLoop m (out, tot) (d # ds)
        = (out @ map block (take (Suc n) (d # ds)), tot + totalLen (take (Suc n) (d # ds)))"
      using False eq by (simp add: totalLen_simps)
    have a2: "assembleLoop_r2 m (out2, tot) (d # ds)
        = (out2 @ concat (map (\<lambda>d. block d @ [0x0A]) (take (Suc n) (d # ds))),
           tot + totalLen (take (Suc n) (d # ds)))"
      using False eq2 by (simp add: totalLen_simps)
    have b: "\<forall>k<Suc n. int (tot + totalLen (take k (d # ds))) < m"
    proof (intro allI impI)
      fix k assume k: "k < Suc n"
      show "int (tot + totalLen (take k (d # ds))) < m"
      proof (cases k)
        case 0
        with False show ?thesis by (simp add: totalLen_def)
      next
        case (Suc j)
        with k below have "int (tot + length (text' d) + totalLen (take j ds)) < m" by simp
        with Suc show ?thesis by (simp add: totalLen_simps add.assoc)
      qed
    qed
    have c: "Suc n < length (d # ds) \<longrightarrow> m \<le> int (tot + totalLen (take (Suc n) (d # ds)))"
      using stop by (simp add: totalLen_simps add.assoc)
    from n a a2 b c show ?thesis
      by (intro exI [of _ "Suc n"]) simp
  qed
qed

text \<open>
  Claim C4. The loop appends the blocks of a prefix of the ordered documents. The block
  of a document is its header line and its whole text without the white space before and
  after it, each followed by a line feed; nothing inside the text is cut. Before every
  document it appends, the text lengths of the documents appended so far sum to less
  than \<open>maxChars\<close>; and when documents are left over, the lengths of the appended ones sum
  to \<open>maxChars\<close> or more. The length counted is \<^verbatim>\<open>s.text.length\<close>, the number of code
  units of the text before trimming; headers and delimiters do not count. So the
  document that crosses the budget is appended whole and nothing follows it: when the
  first of two or more documents is at least as long as a positive budget, the context
  is exactly its block (with \<open>maxChars = 10\<close> and two documents of 20 characters, the
  first document's block). The first revision joins the blocks with a line feed, the
  second ends each block with one.
\<close>

theorem assemble_budget:
  "(\<exists>n\<le>length docs.
      assemble maxChars docs
        = joinWith [0x0A]
            (map (\<lambda>d. str ''--- '' @ file' d @ str '' ---'' @ [0x0A] @ trim (text' d) @ [0x0A])
               (take n docs))
      \<and> fst (assembleLoop_r2 maxChars ([], 0) docs)
          = concat
              (map (\<lambda>d. str ''--- '' @ file' d @ str '' ---'' @ [0x0A] @ trim (text' d)
                          @ [0x0A, 0x0A])
                 (take n docs))
      \<and> (\<forall>k<n. int (sum_list (map (\<lambda>d. length (text' d)) (take k docs))) < maxChars)
      \<and> (n < length docs \<longrightarrow>
            maxChars \<le> int (sum_list (map (\<lambda>d. length (text' d)) (take n docs)))))
   \<and> (\<exists>a b. text' d1 = a @ trim (text' d1) @ b \<and> list_all isSpace a \<and> list_all isSpace b)
   \<and> (0 < maxChars \<and> maxChars \<le> int (length (text' d1)) \<longrightarrow>
        assemble maxChars (d1 # d2 # rest)
          = str ''--- '' @ file' d1 @ str '' ---'' @ [0x0A] @ trim (text' d1) @ [0x0A]
        \<and> fst (assembleLoop_r2 maxChars ([], 0) (d1 # d2 # rest))
          = str ''--- '' @ file' d1 @ str '' ---'' @ [0x0A] @ trim (text' d1) @ [0x0A, 0x0A])
   \<and> sliceByKeywords lib allFilesMap question maxChars
        = assemble maxChars (scoredDocs lib allFilesMap question)
   \<and> sliceByKeywords_r2 lib allFilesMap question maxChars
        = fst (assembleLoop_r2 maxChars ([], 0) (scoredDocs_r2 lib allFilesMap question))"
proof -
  have bl: "block = (\<lambda>d. str ''--- '' @ file' d @ str '' ---'' @ [0x0A] @ trim (text' d) @ [0x0A])"
    by (rule ext) (simp add: block_def)
  have bl2: "(\<lambda>d. block d @ [0x0A])
      = (\<lambda>d. str ''--- '' @ file' d @ str '' ---'' @ [0x0A] @ trim (text' d) @ [0x0A, 0x0A])"
    by (rule ext) (simp add: block_def)
  from assembleLoop_prefix [of docs maxChars "[]" 0 "[]"]
  have "\<exists>n\<le>length docs.
      assemble maxChars docs = joinWith [0x0A] (map block (take n docs))
      \<and> fst (assembleLoop_r2 maxChars ([], 0) docs)
          = concat (map (\<lambda>d. block d @ [0x0A]) (take n docs))
      \<and> (\<forall>k<n. int (totalLen (take k docs)) < maxChars)
      \<and> (n < length docs \<longrightarrow> maxChars \<le> int (totalLen (take n docs)))"
    by (auto simp add: assemble_def)
  then have a: "\<exists>n\<le>length docs.
      assemble maxChars docs
        = joinWith [0x0A]
            (map (\<lambda>d. str ''--- '' @ file' d @ str '' ---'' @ [0x0A] @ trim (text' d) @ [0x0A])
               (take n docs))
      \<and> fst (assembleLoop_r2 maxChars ([], 0) docs)
          = concat
              (map (\<lambda>d. str ''--- '' @ file' d @ str '' ---'' @ [0x0A] @ trim (text' d)
                          @ [0x0A, 0x0A])
                 (take n docs))
      \<and> (\<forall>k<n. int (sum_list (map (\<lambda>d. length (text' d)) (take k docs))) < maxChars)
      \<and> (n < length docs \<longrightarrow>
            maxChars \<le> int (sum_list (map (\<lambda>d. length (text' d)) (take n docs))))"
    unfolding bl [symmetric] bl2 [symmetric] totalLen_def .
  have b: "0 < maxChars \<and> maxChars \<le> int (length (text' d1)) \<longrightarrow>
        assemble maxChars (d1 # d2 # rest)
          = str ''--- '' @ file' d1 @ str '' ---'' @ [0x0A] @ trim (text' d1) @ [0x0A]
        \<and> fst (assembleLoop_r2 maxChars ([], 0) (d1 # d2 # rest))
          = str ''--- '' @ file' d1 @ str '' ---'' @ [0x0A] @ trim (text' d1) @ [0x0A, 0x0A]"
    by (simp add: assemble_def block_def)
  from a b trim_decomp [of "text' d1"] show ?thesis
    by (simp only: sliceByKeywords_def sliceByKeywords_r2_def simp_thms)
qed

theorem assemble_budget_witness:
  "length (text' demoDocA) = 20 \<and> length (text' demoDocB) = 20
   \<and> assemble 10 [demoDocA, demoDocB]
       = str ''--- a.txt ---'' @ [0x0A] @ str ''Parking is permitted'' @ [0x0A]
   \<and> fst (assembleLoop_r2 10 ([], 0) [demoDocA, demoDocB])
       = str ''--- a.txt ---'' @ [0x0A] @ str ''Parking is permitted'' @ [0x0A, 0x0A]
   \<and> assemble 1 [\<lparr>file' = str ''c.txt'', text' = [0x20, 0x2014], score = 0\<rparr>, demoDocB]
       = str ''--- c.txt ---'' @ [0x0A, 0x2014, 0x0A]
   \<and> assemble 2 [\<lparr>file' = str ''c.txt'', text' = [0x2014], score = 0\<rparr>, demoDocB]
       = str ''--- c.txt ---'' @ [0x0A, 0x2014, 0x0A, 0x0A] @ str ''--- b.txt ---''
           @ [0x0A] @ str ''No mention of pets!'' @ [0x0A]"
proof -
  have h: "0 < (10::int) \<and> 10 \<le> int (length (text' demoDocA))"
    by (simp add: demoDocA_def str_def)
  have h2: "0 < (1::int)
      \<and> 1 \<le> int (length (text' \<lparr>file' = str ''c.txt'', text' = [0x20, 0x2014], score = 0\<rparr>))"
    by simp
  from assemble_budget [where maxChars = 10 and ?d1.0 = demoDocA and ?d2.0 = demoDocB
      and rest = "[]"] h
    assemble_budget [where maxChars = 1
      and ?d1.0 = "\<lparr>file' = str ''c.txt'', text' = [0x20, 0x2014], score = 0\<rparr>"
      and ?d2.0 = demoDocB and rest = "[]"] h2
  show ?thesis by (simp add: demoDocA_def demoDocB_def string_eval assemble_def block_def)
qed

subsection \<open>Citation rewriting\<close>

lemma markerAt_not_open: "c \<noteq> 0x5B \<Longrightarrow> markerAt (c # cs) = None"
  by (simp add: markerAt_def)

lemma markerAt_open:
  "markerAt (0x5B # cs)
     = (if dropWhile notClose cs \<noteq> [] \<and> markerName (takeWhile notClose cs)
        then Some (takeWhile notClose cs, tl (dropWhile notClose cs)) else None)"
  by (simp add: markerAt_def Let_def)


lemma indexGet_empty: "indexGet [] f = None"
  by (simp add: indexGet_def)

lemma citationLabel_empty: "citationLabel [] f = stripTxt f"
  by (simp add: citationLabel_def indexGet_empty)

lemma rewriteWith_label: "rewriteWith index txt = replaceMarkers (citationLabel index) txt"
proof (cases "index = []")
  case True
  have "citationLabel [] = stripTxt"
    by (rule ext) (simp add: citationLabel_empty)
  with True show ?thesis by (simp add: rewriteWith_def)
next
  case False
  then show ?thesis by (simp add: rewriteWith_def)
qed

lemma rewriteWith_r2_eq: "rewriteWith_r2 index txt = rewriteWith index txt"
  by (simp add: rewriteWith_label rewriteWith_r2_def)


lemma rewriteWith_scan:
  "rewriteWith index [] = []"
  "markerAt (c # cs) = Some (f, rest) \<Longrightarrow>
     rewriteWith index (c # cs) = citationLabel index f @ rewriteWith index rest"
  "markerAt (c # cs) = None \<Longrightarrow> rewriteWith index (c # cs) = c # rewriteWith index cs"
  by (simp_all add: rewriteWith_label)

lemma length_txt: "length (str ''.txt'') = 4"
  by (simp add: str_def)

lemma endsWith_txt:
  "endsWith s (str ''.txt'') = (4 \<le> length s \<and> drop (length s - 4) s = str ''.txt'')"
  unfolding endsWith_def by (simp only: length_txt)








lemma replaceMarkers_id: "\<not> hasMarker s \<Longrightarrow> replaceMarkers r s = s"
proof (induction s)
  case Nil
  then show ?case by simp
next
  case (Cons c cs)
  then have "markerAt (c # cs) = None" and "replaceMarkers r cs = cs"
    by (cases "markerAt (c # cs)"; simp)+
  then show ?case by simp
qed


lemmas citation_eval =
  rewriteWith_def markerAt_def notClose_def markerName_def stripTxt_def lowerAscii_def
  citationLabel_def indexGet_def emDash_def






text \<open>Markers in the rewritten text.\<close>

lemma hasMarker_no_open: "0x5B \<notin> set x \<Longrightarrow> hasMarker (x @ y) = hasMarker y"
  by (induction x) (auto simp add: markerAt_not_open)

lemma markerName_Cons:
  assumes "markerName w"
  shows "markerName (c # w)"
proof -
  from assms have l: "4 < length w" and d: "drop (length w - 4) w = str ''.txt''"
    by (simp_all add: markerName_def endsWith_txt)
  from l have "length (c # w) - 4 = Suc (length w - 4)"
    by simp
  with d have "drop (length (c # w) - 4) (c # w) = str ''.txt''"
    by (simp del: length_Cons)
  with l show ?thesis
    by (simp add: markerName_def endsWith_txt del: length_Cons)
qed

lemma replaceMarkers_unmatched:
  assumes "\<not> markerName (takeWhile notClose cs) \<or> dropWhile notClose cs = []"
  shows "replaceMarkers r cs = takeWhile notClose cs @ replaceMarkers r (dropWhile notClose cs)
       \<and> markersOf cs = markersOf (dropWhile notClose cs)"
  using assms
proof (induction cs)
  case Nil
  then show ?case by simp
next
  case (Cons d ds)
  show ?case
  proof (cases "notClose d")
    case False
    then show ?thesis by simp
  next
    case True
    with Cons.prems have p: "\<not> markerName (takeWhile notClose ds) \<or> dropWhile notClose ds = []"
      by (auto dest: markerName_Cons)
    then have "markerAt (d # ds) = None"
      by (cases "d = 0x5B") (auto simp add: markerAt_open markerAt_not_open)
    with True Cons.IH [OF p] show ?thesis by simp
  qed
qed

lemma markerAt_copied:
  assumes "markerAt (0x5B # cs) = None"
  shows "markerAt (0x5B # replaceMarkers r cs) = None"
proof -
  from assms have p: "\<not> markerName (takeWhile notClose cs) \<or> dropWhile notClose cs = []"
    by (auto simp add: markerAt_open split: if_splits)
  then have eq: "replaceMarkers r cs
      = takeWhile notClose cs @ replaceMarkers r (dropWhile notClose cs)"
    by (simp add: replaceMarkers_unmatched)
  show ?thesis
  proof (cases "dropWhile notClose cs")
    case Nil
    then have "cs = takeWhile notClose cs"
      by (metis append_Nil2 takeWhile_dropWhile_id)
    with eq Nil assms show ?thesis by simp
  next
    case (Cons d ds)
    then have d: "d = 0x5D"
      using hd_dropWhile [of notClose cs] by (simp add: notClose_def)
    then have "replaceMarkers r (d # ds) = d # replaceMarkers r ds"
      by (simp add: markerAt_not_open)
    with eq Cons have e: "replaceMarkers r cs
        = takeWhile notClose cs @ 0x5D # replaceMarkers r ds"
      using d by simp
    have a: "\<forall>c\<in>set (takeWhile notClose cs). notClose c"
      by (auto dest: set_takeWhileD)
    have t: "takeWhile notClose (takeWhile notClose cs @ 0x5D # replaceMarkers r ds)
        = takeWhile notClose cs"
      using a by (simp add: takeWhile_append2 notClose_def)
    from p Cons have "\<not> markerName (takeWhile notClose cs)" by simp
    with t show ?thesis
      by (simp add: e markerAt_open)
  qed
qed

lemma replaceMarkers_no_marker:
  "\<forall>f\<in>set (markersOf s). 0x5B \<notin> set (r f) \<Longrightarrow> \<not> hasMarker (replaceMarkers r s)"
proof (induction r s rule: replaceMarkers.induct)
  case (1 r)
  then show ?case by simp
next
  case (2 r c cs)
  show ?case
  proof (cases "markerAt (c # cs)")
    case None
    with 2 have ih: "\<not> hasMarker (replaceMarkers r cs)" by simp
    have "markerAt (c # replaceMarkers r cs) = None"
    proof (cases "c = 0x5B")
      case True
      with None show ?thesis by (simp add: markerAt_copied)
    next
      case False
      then show ?thesis by (simp add: markerAt_not_open)
    qed
    with ih None show ?thesis by simp
  next
    case (Some x)
    obtain f rest where x: "x = (f, rest)" by (cases x)
    with Some 2 have "\<not> hasMarker (replaceMarkers r rest)" and "0x5B \<notin> set (r f)"
      by simp_all
    with Some x show ?thesis by (simp add: hasMarker_no_open)
  qed
qed

text \<open>
  Claim C6, as the code has it. A text without a citation marker is returned unchanged, by
  both revisions. When none of the labels that replace the markers of a text holds an
  opening bracket, the rewritten text has no marker, and rewriting it again changes
  nothing.
\<close>

theorem rewrite_idempotence:
  "(\<not> hasMarker txt \<longrightarrow>
      rewriteWith index txt = txt \<and> rewriteWith_r2 index txt = txt
      \<and> prettyCitations lib fs city txt = txt \<and> prettyCitations_r2 lib fs city txt = txt)
   \<and> ((\<forall>f\<in>set (markersOf txt). 0x5B \<notin> set (citationLabel index f)) \<longrightarrow>
        \<not> hasMarker (rewriteWith index txt)
        \<and> rewriteWith index (rewriteWith index txt) = rewriteWith index txt
        \<and> rewriteWith_r2 index (rewriteWith_r2 index txt) = rewriteWith_r2 index txt)"
proof -
  have a: "rewriteWith ix s = s" if "\<not> hasMarker s" for ix s
    using that by (simp add: rewriteWith_label replaceMarkers_id)
  have b: "\<not> hasMarker (rewriteWith index txt)"
    if "\<forall>f\<in>set (markersOf txt). 0x5B \<notin> set (citationLabel index f)"
    using that by (simp add: rewriteWith_label replaceMarkers_no_marker)
  from a b show ?thesis
    by (auto simp add: rewriteWith_r2_eq prettyCitations_def prettyCitations_r2_def)
qed

theorem rewrite_idempotence_witness:
  "rewriteWith demoIndex (str ''no marker [here]'') = str ''no marker [here]''
   \<and> \<not> hasMarker (rewriteWith demoIndex (str ''See [a.txt] for details.''))
   \<and> rewriteWith demoIndex (rewriteWith demoIndex (str ''See [a.txt] for details.''))
       = rewriteWith demoIndex (str ''See [a.txt] for details.'')"
proof -
  have h1: "\<not> hasMarker (str ''no marker [here]'')"
    by (simp add: markerAt_def notClose_def markerName_def endsWith_def str_def)
  have h2: "\<forall>f\<in>set (markersOf (str ''See [a.txt] for details.'')).
      0x5B \<notin> set (citationLabel demoIndex f)"
    by (simp add: citation_eval demoIndex_def string_eval)
  from rewrite_idempotence [of "str ''no marker [here]''" demoIndex] h1
    rewrite_idempotence [of "str ''See [a.txt] for details.''" demoIndex] h2
  show ?thesis by simp
qed

text \<open>
  Without the condition on the labels the claim fails, already with an empty index: the
  label of the marker \<^verbatim>\<open>[[a.txt.txt]\<close> is \<^verbatim>\<open>[a.txt\<close>, which the bracket that follows
  closes into a new marker, and a second rewrite changes the text again.
\<close>

theorem rewrite_idempotence_counterexample:
  "rewriteWith [] (str ''[[a.txt.txt]]'') = str ''[a.txt]''
   \<and> hasMarker (rewriteWith [] (str ''[[a.txt.txt]]''))
   \<and> rewriteWith [] (rewriteWith [] (str ''[[a.txt.txt]]'')) = str ''a''
   \<and> rewriteWith [] (rewriteWith [] (str ''[[a.txt.txt]]''))
       \<noteq> rewriteWith [] (str ''[[a.txt.txt]]'')"
  by (simp add: citation_eval string_eval)

subsection \<open>Loading the corpus and the citation index\<close>

lemma map_of_foldl_update:
  "map_of (foldl (\<lambda>m f. AList.update f (g f) m) m0 fs) k
     = (if k \<in> set fs then Some (g k) else map_of m0 k)"
  by (induction fs arbitrary: m0 rule: rev_induct) (auto simp add: update_conv')

lemma indexRow_cases:
  "map_of (indexRow lib out line) f = Some e \<Longrightarrow>
     map_of out f = Some e
     \<or> (3 \<le> length (splitComma [] line) \<and> isTxt lib f
        \<and> f = trim (splitComma [] line ! 0)
        \<and> e = \<lparr>article = Some (trim (splitComma [] line ! 1)),
                title = Some (trim (splitComma [] line ! 2))\<rparr>)"
proof -
  assume h: "map_of (indexRow lib out line) f = Some e"
  show ?thesis
  proof (cases "length (splitComma [] line) < 3")
    case True
    with h show ?thesis by (simp add: indexRow_def)
  next
    case False
    then have l: "0 < length (splitComma [] line)" "1 < length (splitComma [] line)"
      "2 < length (splitComma [] line)"
      by linarith+
    have n: "map trim (splitComma [] line) ! 0 = trim (splitComma [] line ! 0)"
      "map trim (splitComma [] line) ! 1 = trim (splitComma [] line ! 1)"
      "map trim (splitComma [] line) ! 2 = trim (splitComma [] line ! 2)"
      using l by (simp_all only: nth_map)
    from h False show ?thesis
      by (auto simp add: indexRow_def Let_def update_conv' n split: if_splits)
  qed
qed

lemma foldl_indexRow_cases:
  "map_of (foldl (indexRow lib) out ls) f = Some e \<Longrightarrow>
     map_of out f = Some e
     \<or> (\<exists>line\<in>set ls. 3 \<le> length (splitComma [] line) \<and> isTxt lib f
        \<and> f = trim (splitComma [] line ! 0)
        \<and> e = \<lparr>article = Some (trim (splitComma [] line ! 1)),
                title = Some (trim (splitComma [] line ! 2))\<rparr>)"
proof (induction ls arbitrary: out)
  case Nil
  then show ?case by simp
next
  case (Cons l ls)
  from Cons.prems have "map_of (foldl (indexRow lib) (indexRow lib out l) ls) f = Some e"
    by simp
  from Cons.IH [OF this] indexRow_cases [of lib out l f e] show ?case
    by auto
qed

text \<open>A row of fewer than three columns, or whose first column is no document file, adds nothing.\<close>

lemma indexRow_dropped:
  "length (splitComma [] line) < 3 \<or> \<not> isTxt lib (trim (hd (splitComma [] line)))
     \<Longrightarrow> indexRow lib out line = out"
  by (cases "splitComma [] line") (auto simp add: indexRow_def Let_def)

text \<open>
  The loaders of the first revision degrade without failing: \<open>loadAll\<close> never throws, it
  returns the empty mapping when the directory cannot be listed, and otherwise exactly
  the listed names that end in \<^verbatim>\<open>.txt\<close> (in any letter case), each with what \<open>read\<close>
  returns for it; \<open>loadIndex\<close> returns the empty index when the side-file cannot be
  read, and each of its entries comes from a row of at least three columns whose first
  column ends in \<^verbatim>\<open>.txt\<close>.
\<close>

lemma loaders_degrade:
  "loadAll lib fs city \<noteq> Throws
   \<and> (readdirSync fs [ROOT fs, str ''content'', city] = None \<longrightarrow>
        loadAll lib fs city = Returns [])
   \<and> (\<forall>names. readdirSync fs [ROOT fs, str ''content'', city] = Some names \<longrightarrow>
         (\<exists>m. loadAll lib fs city = Returns m
            \<and> (\<forall>f. map_of m f
                  = (if f \<in> set names \<and> isTxt lib f
                     then Some (read fs [ROOT fs, str ''content'', city, f]) else None))))
   \<and> (readFileSync fs [ROOT fs, str ''content'', city, str ''index.csv''] = None \<longrightarrow>
         loadIndex lib fs city = [])
   \<and> (\<forall>f e. map_of (loadIndex lib fs city) f = Some e \<longrightarrow>
         (\<exists>line\<in>set (splitLines []
                        (read fs [ROOT fs, str ''content'', city, str ''index.csv''])).
            3 \<le> length (splitComma [] line) \<and> isTxt lib f
            \<and> f = trim (splitComma [] line ! 0)
            \<and> e = \<lparr>article = Some (trim (splitComma [] line ! 1)),
                    title = Some (trim (splitComma [] line ! 2))\<rparr>))"
proof -
  have a: "loadAll lib fs city \<noteq> Throws"
    by (simp add: loadAll_def Let_def split: option.splits)
  have b: "readdirSync fs [ROOT fs, str ''content'', city] = None \<longrightarrow>
      loadAll lib fs city = Returns []"
    by (simp add: loadAll_def)
  have c: "\<forall>names. readdirSync fs [ROOT fs, str ''content'', city] = Some names \<longrightarrow>
         (\<exists>m. loadAll lib fs city = Returns m
            \<and> (\<forall>f. map_of m f
                  = (if f \<in> set names \<and> isTxt lib f
                     then Some (read fs [ROOT fs, str ''content'', city, f]) else None)))"
    by (simp add: loadAll_def map_of_foldl_update)
  have d: "readFileSync fs [ROOT fs, str ''content'', city, str ''index.csv''] = None \<longrightarrow>
         loadIndex lib fs city = []"
    by (simp add: loadIndex_def read_def trim_Nil)
  have e: "\<exists>line\<in>set (splitLines []
                        (read fs [ROOT fs, str ''content'', city, str ''index.csv''])).
            3 \<le> length (splitComma [] line) \<and> isTxt lib f
            \<and> f = trim (splitComma [] line ! 0)
            \<and> e = \<lparr>article = Some (trim (splitComma [] line ! 1)),
                    title = Some (trim (splitComma [] line ! 2))\<rparr>"
    if "map_of (loadIndex lib fs city) f = Some e" for f e
  proof -
    from that have "map_of (foldl (indexRow lib) []
        (filter (\<lambda>l. l \<noteq> [])
           (splitLines [] (read fs [ROOT fs, str ''content'', city, str ''index.csv'']))))
          f = Some e"
      by (simp add: loadIndex_def Let_def split: if_splits)
    from foldl_indexRow_cases [OF this] show ?thesis by auto
  qed
  from a b c d e show ?thesis by blast
qed

lemmas loader_eval =
  loadAll_def loadAll_r2_def dirExists_def loadIndex_def loadIndex_r2_def indexRow_def
  indexRow_r2_def nthOpt_def read_def isTxt_def prettyCitations_def prettyCitations_r2_def
  rewriteWith_r2_def

text \<open>
  Claim C9 fails on the loaders of the second revision. \<open>loadAll_r2\<close> throws when the
  tenant's directory exists and cannot be listed, where \<open>loadAll\<close> returns the empty
  mapping. \<open>loadIndex_r2\<close> keeps a row of fewer than three columns, with the missing
  columns undefined, where \<open>loadIndex\<close> drops it; the citation rewriter then labels the
  row's file with the bare word Article and the dash.
\<close>

theorem loaders_r2_diverge:
  "loadAll_r2 lib demoFs (str ''riverton'') = Throws
   \<and> loadAll lib demoFs (str ''riverton'') = Returns []
   \<and> loadIndex_r2 lib demoFs (str ''riverton'')
       = [(str ''a.txt'', \<lparr>article = None, title = None\<rparr>),
          (str ''b.txt'', \<lparr>article = Some (str ''7''), title = Some (str ''Signs'')\<rparr>)]
   \<and> loadIndex lib demoFs (str ''riverton'')
       = [(str ''b.txt'', \<lparr>article = Some (str ''7''), title = Some (str ''Signs'')\<rparr>)]
   \<and> prettyCitations_r2 lib demoFs (str ''riverton'') (str ''[a.txt]'')
       = str ''Article '' @ [0x2014]
   \<and> prettyCitations lib demoFs (str ''riverton'') (str ''[a.txt]'') = str ''a''"
  by (simp add: loader_eval demoFs_def citation_eval string_eval)

subsection \<open>Relevance scoring\<close>

lemma isAlnum_lowerLatin1: "isAlnum (lowerLatin1 c) = isAlnum c"
  by (auto simp add: isAlnum_def lowerLatin1_def)

lemma isWordChar_lowerLatin1: "isWordChar (lowerLatin1 c) = isWordChar c"
  by (auto simp add: isWordChar_def isAlnum_def lowerLatin1_def)

lemma lowerLatin1_idem: "lowerLatin1 (lowerLatin1 c) = lowerLatin1 c"
  by (simp add: lowerLatin1_def)

lemma isAlnum_latin1: "isAlnum c \<Longrightarrow> c < 0x100"
  by (auto simp add: isAlnum_def)

lemma toLowerCase_alnum:
  assumes "\<forall>c\<in>set t. isAlnum c"
  shows "toLowerCase lib t = map lowerLatin1 t"
proof -
  from assms have "list_all (\<lambda>c. c < 0x100) t"
    by (simp add: list_all_iff isAlnum_latin1)
  then show ?thesis by (rule toLowerCase_latin1)
qed

lemma uniq_foldl:
  "set (foldl (\<lambda>acc x. if x \<in> set acc then acc else acc @ [x]) acc xs) = set acc \<union> set xs
   \<and> (distinct acc \<longrightarrow>
        distinct (foldl (\<lambda>acc x. if x \<in> set acc then acc else acc @ [x]) acc xs))"
  by (induction xs arbitrary: acc) auto

lemma set_uniq: "set (uniq xs) = set xs"
  by (simp add: uniq_def uniq_foldl)

lemma distinct_uniq: "distinct (uniq xs)"
  using uniq_foldl [of "[]" xs] by (simp add: uniq_def)

lemma splitNonAlnum_alnum:
  "\<forall>c\<in>set cur. isAlnum c \<Longrightarrow> p \<in> set (splitNonAlnum cur s) \<Longrightarrow> \<forall>c\<in>set p. isAlnum c"
proof (induction cur s arbitrary: p rule: splitNonAlnum.induct)
  case (1 cur)
  then show ?case by simp
next
  case (2 cur c cs)
  show ?case
  proof (cases "isAlnum c")
    case True
    with "2.prems" have "p \<in> set (splitNonAlnum (cur @ [c]) cs)"
      and "\<forall>d\<in>set (cur @ [c]). isAlnum d"
      by simp_all
    then show ?thesis by (rule "2.IH"(1) [OF True, rotated])
  next
    case False
    with "2.prems" have "p = cur \<or> p \<in> set (splitNonAlnum [] (dropWhile (\<lambda>d. \<not> isAlnum d) cs))"
      by simp
    then show ?thesis
    proof
      assume "p = cur"
      with "2.prems"(1) show ?thesis by blast
    next
      assume q: "p \<in> set (splitNonAlnum [] (dropWhile (\<lambda>d. \<not> isAlnum d) cs))"
      have "\<forall>d\<in>set ([]::jsstring). isAlnum d" by simp
      from "2.IH"(2) [OF False this q] show ?thesis .
    qed
  qed
qed

lemma queryTerms_alnum:
  assumes "t \<in> set (queryTerms lib q)"
  shows "t \<noteq> [] \<and> (\<forall>c\<in>set t. isAlnum c)"
proof -
  from assms obtain p where p: "p \<in> set (splitNonAlnum [] (toLowerCase lib q))" "p \<noteq> []"
    and t: "t = toLowerCase lib p"
    by (auto simp add: queryTerms_def set_uniq)
  from p(1) have a: "\<forall>c\<in>set p. isAlnum c"
    by (rule splitNonAlnum_alnum [rotated]) simp
  then have "toLowerCase lib p = map lowerLatin1 p"
    by (rule toLowerCase_alnum)
  with p(2) t a show ?thesis
    by (simp add: isAlnum_lowerLatin1)
qed

lemma matchesAt_nth:
  assumes "matchesAt t s i" and "k < length t"
  shows "s ! (i + k) = t ! k"
proof -
  from assms(1) have t: "take (length t) (drop i s) = t" and b: "i + length t \<le> length s"
    by (simp_all add: matchesAt_def)
  have "t ! k = take (length t) (drop i s) ! k"
    by (simp only: t)
  also have "\<dots> = s ! (i + k)"
    using assms(2) b by simp
  finally show ?thesis by simp
qed

lemma matchesAt_no_overlap:
  assumes w: "\<forall>c\<in>set t. isWordChar c" and m: "matchesAt t s i"
    and ij: "i < j" and ji: "j < i + length t"
  shows "\<not> matchesAt t s j"
proof -
  from m have b: "i + length t \<le> length s"
    by (simp add: matchesAt_def)
  from ij ji have k1: "j - 1 - i < length t" and k2: "j - i < length t"
    by simp_all
  from matchesAt_nth [OF m k1] ij have "s ! (j - 1) = t ! (j - 1 - i)"
    by simp
  with w k1 have p: "isWordChar (s ! (j - 1))"
    by simp
  from matchesAt_nth [OF m k2] ij have "s ! j = t ! (j - i)"
    by simp
  with w k2 have q: "isWordChar (s ! j)"
    by simp
  from ij ji b p q have "\<not> wordBoundary s j"
    by (simp add: wordBoundary_def)
  then show ?thesis
    by (simp add: matchesAt_def)
qed

lemma finite_matches: "finite {j. P j \<and> matchesAt t s j}"
proof -
  have "{j. P j \<and> matchesAt t s j} \<subseteq> {..length s}"
    by (auto simp add: matchesAt_def)
  then show ?thesis
    by (rule finite_subset) simp
qed

lemma countMatches_card:
  assumes ne: "t \<noteq> []" and w: "\<forall>c\<in>set t. isWordChar c"
  shows "countMatches t s i = card {j. i \<le> j \<and> matchesAt t s j}"
  using assms
proof (induction t s i rule: countMatches.induct)
  case (1 t s i)
  show ?case
  proof (cases "length s < i")
    case True
    then have "{j. i \<le> j \<and> matchesAt t s j} = {}"
      by (auto simp add: matchesAt_def)
    then have "card {j. i \<le> j \<and> matchesAt t s j} = 0"
      by (simp only: card.empty)
    moreover from True have "countMatches t s i = 0"
      by (subst countMatches.simps) simp
    ultimately show ?thesis by simp
  next
    case False
    show ?thesis
    proof (cases "matchesAt t s i")
      case True
      have "{j. i \<le> j \<and> matchesAt t s j}
          = insert i {j. i + length t \<le> j \<and> matchesAt t s j}"
      proof (intro set_eqI iffI)
        fix j assume "j \<in> {j. i \<le> j \<and> matchesAt t s j}"
        then have j: "i \<le> j" "matchesAt t s j" by simp_all
        show "j \<in> insert i {j. i + length t \<le> j \<and> matchesAt t s j}"
        proof (cases "j = i \<or> i + length t \<le> j")
          case True
          with j show ?thesis by auto
        next
          case False
          with j(1) have "i < j" "j < i + length t" by simp_all
          from matchesAt_no_overlap [OF "1.prems"(2) True this] j(2) show ?thesis
            by simp
        qed
      next
        fix j assume "j \<in> insert i {j. i + length t \<le> j \<and> matchesAt t s j}"
        with True show "j \<in> {j. i \<le> j \<and> matchesAt t s j}" by auto
      qed
      moreover have "i \<notin> {j. i + length t \<le> j \<and> matchesAt t s j}"
        using "1.prems"(1) by simp
      ultimately have "card {j. i \<le> j \<and> matchesAt t s j}
          = Suc (card {j. i + length t \<le> j \<and> matchesAt t s j})"
        by (simp add: finite_matches)
      moreover have "countMatches t s (i + (if t = [] then 1 else length t))
          = card {j. i + length t \<le> j \<and> matchesAt t s j}"
        using "1.IH"(1) [OF False True "1.prems"] "1.prems"(1) by simp
      ultimately show ?thesis
        using False True "1.prems"(1) by (subst countMatches.simps) simp
    next
      case nm: False
      have "{j. i \<le> j \<and> matchesAt t s j} = {j. i + 1 \<le> j \<and> matchesAt t s j}"
      proof (intro set_eqI iffI)
        fix j assume "j \<in> {j. i \<le> j \<and> matchesAt t s j}"
        then have j: "i \<le> j" "matchesAt t s j" by simp_all
        with nm have "j \<noteq> i" by auto
        with j show "j \<in> {j. i + 1 \<le> j \<and> matchesAt t s j}" by simp
      next
        fix j assume "j \<in> {j. i + 1 \<le> j \<and> matchesAt t s j}"
        then show "j \<in> {j. i \<le> j \<and> matchesAt t s j}" by simp
      qed
      moreover have "countMatches t s (i + 1) = card {j. i + 1 \<le> j \<and> matchesAt t s j}"
        using "1.IH"(2) [OF False nm "1.prems"] .
      ultimately show ?thesis
        using False nm by (subst countMatches.simps) simp
    qed
  qed
qed

text \<open>
  A match of the expression is a whole-word occurrence: the term is made of word
  characters, so the two boundaries say that no word character adjoins it.
\<close>

lemma matchesAt_wholeWord:
  assumes ne: "t \<noteq> []" and w: "\<forall>c\<in>set t. isWordChar c"
  shows "matchesAt t lower i = wholeWordAt isWordChar t lower i"
proof (cases "i + length t \<le> length lower \<and> take (length t) (drop i lower) = t")
  case False
  then show ?thesis
    by (auto simp add: matchesAt_def wholeWordAt_def)
next
  case True
  then have b: "i + length t \<le> length lower"
    and e: "take (length t) (drop i lower) = t"
    by simp_all
  from ne have l: "0 < length t" by simp
  have first: "lower ! i = t ! 0"
  proof -
    have "t ! 0 = take (length t) (drop i lower) ! 0" by (simp only: e)
    also have "\<dots> = lower ! i" using l b by simp
    finally show ?thesis by simp
  qed
  have last': "lower ! (i + length t - 1) = t ! (length t - 1)"
  proof -
    have "t ! (length t - 1) = take (length t) (drop i lower) ! (length t - 1)"
      by (simp only: e)
    also have "\<dots> = lower ! (i + (length t - 1))"
      using l b by simp
    finally show ?thesis using l by simp
  qed
  from w l have w0: "isWordChar (t ! 0)" and w1: "isWordChar (t ! (length t - 1))"
    by simp_all
  from b l have il: "i < length lower" "i - 1 < length lower"
    "i + length t - 1 < length lower" "0 < i + length t"
    by linarith+
  have s0: "wordBoundary lower i = (\<not> (0 < i \<and> isWordChar (lower ! (i - 1))))"
    using il first w0 by (auto simp add: wordBoundary_def)
  have s1: "wordBoundary lower (i + length t)
      = (\<not> (i + length t < length lower \<and> isWordChar (lower ! (i + length t))))"
    using b il last' w1 by (auto simp add: wordBoundary_def)
  from True e b s0 s1 show ?thesis
    by (simp add: matchesAt_def wholeWordAt_def)
qed

lemma includes'_sublist: "includes' s t = sublist t s"
  by (induction s) (simp_all add: sublist_Cons_right)

lemma foldl_hits:
  "foldl (\<lambda>score t. if length t < 3 then score else score + f t) a ts
     = a + sum_list (map (\<lambda>t. if 3 \<le> length t then f t else 0) ts)"
  for a :: rat
  by (induction ts arbitrary: a) (simp_all add: not_less add.assoc)

lemma sum_list_filtered:
  fixes f :: "'a \<Rightarrow> rat"
  assumes "distinct ts"
  shows "sum_list (map (\<lambda>t. if P t then f t else 0) ts) = (\<Sum>t | t \<in> set ts \<and> P t. f t)"
proof -
  have "sum_list (map (\<lambda>t. if P t then f t else 0) ts)
      = (\<Sum>t\<in>set ts. if P t then f t else 0)"
    using assms by (rule sum_list_distinct_conv_sum_set)
  also have "\<dots> = (\<Sum>t\<in>{t \<in> set ts. P t}. f t)"
    by (simp add: sum.inter_filter)
  finally show ?thesis by simp
qed

lemma foldl_bonus:
  "foldl (\<lambda>score b. score + (if P b then 1 / 4 else 0)) a bs
     = a + (1 / 4) * of_nat (length (filter P bs))"
  for a :: rat
  by (induction bs arbitrary: a) (simp_all add: algebra_simps)

lemma card_filtered: "distinct bs \<Longrightarrow> card {b \<in> set bs. P b} = length (filter P bs)"
proof -
  assume "distinct bs"
  then have "distinct (filter P bs)" by simp
  then have "card (set (filter P bs)) = length (filter P bs)"
    by (rule distinct_card)
  then show ?thesis by simp
qed

lemma distinct_bonusTerms: "distinct bonusTerms"
  by (simp add: bonusTerms_def str_def)

lemma distinct_queryTerms: "distinct (queryTerms lib q)"
  by (simp add: queryTerms_def distinct_uniq)

lemma wordChar_queryTerms:
  "t \<in> set (queryTerms lib q) \<Longrightarrow> t \<noteq> [] \<and> (\<forall>c\<in>set t. isWordChar c)"
  using queryTerms_alnum [of t lib q] by (simp add: isWordChar_def)

lemma hits_wholeWordCount:
  assumes "t \<in> set (queryTerms lib q)"
  shows "countMatches t lower 0 = wholeWordCount isWordChar t lower"
proof -
  from wordChar_queryTerms [OF assms] have ne: "t \<noteq> []" and w: "\<forall>c\<in>set t. isWordChar c"
    by simp_all
  have "countMatches t lower 0 = card {j. 0 \<le> j \<and> matchesAt t lower j}"
    using ne w by (rule countMatches_card)
  also have "\<dots> = card {i. wholeWordAt isWordChar t lower i}"
    by (simp add: matchesAt_wholeWord [OF ne w])
  finally show ?thesis by (simp add: wholeWordCount_def)
qed

lemma alnumRuns_all:
  assumes "list_all isAlnum x"
  shows "alnumRuns x = {x} - {[]}"
proof (intro set_eqI iffI)
  fix t assume "t \<in> alnumRuns x"
  then obtain pre post where t: "t \<noteq> []" and x: "x = pre @ t @ post"
    and p: "\<not> (pre \<noteq> [] \<and> isAlnum (last pre))" and q: "\<not> (post \<noteq> [] \<and> isAlnum (hd post))"
    by (auto simp add: alnumRuns_def)
  from assms x have ap: "list_all isAlnum pre" and aq: "list_all isAlnum post" by simp_all
  have "pre = []"
  proof (rule ccontr)
    assume n: "pre \<noteq> []"
    then have "last pre \<in> set pre" by simp
    with ap have "isAlnum (last pre)" by (simp add: list_all_iff)
    with p n show False by simp
  qed
  moreover have "post = []"
  proof (rule ccontr)
    assume n: "post \<noteq> []"
    then have "hd post \<in> set post" by simp
    with aq have "isAlnum (hd post)" by (simp add: list_all_iff)
    with q n show False by simp
  qed
  ultimately show "t \<in> {x} - {[]}" using x t by simp
next
  fix t assume "t \<in> {x} - {[]}"
  then have "t = x" "x \<noteq> []" by auto
  with assms show "t \<in> alnumRuns x"
    by (auto simp add: alnumRuns_def intro: exI [of _ "[]"])
qed

lemma alnumRuns_sep:
  assumes c: "\<not> isAlnum c"
  shows "alnumRuns (x @ c # y) = alnumRuns x \<union> alnumRuns y"
proof (intro set_eqI iffI)
  fix t assume "t \<in> alnumRuns (x @ c # y)"
  then obtain pre post where t: "t \<noteq> []" and a: "list_all isAlnum t"
    and e: "x @ c # y = pre @ t @ post"
    and p: "\<not> (pre \<noteq> [] \<and> isAlnum (last pre))" and q: "\<not> (post \<noteq> [] \<and> isAlnum (hd post))"
    by (auto simp add: alnumRuns_def)
  from a c have ct: "c \<notin> set t"
    by (auto simp add: list_all_iff)
  from e obtain us where "(x = pre @ us \<and> us @ c # y = t @ post)
      \<or> (x @ us = pre \<and> c # y = us @ t @ post)"
    by (auto simp add: append_eq_append_conv2)
  then show "t \<in> alnumRuns x \<union> alnumRuns y"
  proof
    assume A: "x = pre @ us \<and> us @ c # y = t @ post"
    then obtain vs where "(us = t @ vs \<and> vs @ c # y = post) \<or> (us @ vs = t \<and> c # y = vs @ post)"
      by (auto simp add: append_eq_append_conv2)
    then have "\<exists>vs. us = t @ vs \<and> post = vs @ c # y"
    proof
      assume "us = t @ vs \<and> vs @ c # y = post"
      then show ?thesis by auto
    next
      assume B: "us @ vs = t \<and> c # y = vs @ post"
      show ?thesis
      proof (cases vs)
        case Nil
        with B show ?thesis by auto
      next
        case (Cons v vs')
        with B have "c \<in> set t" by auto
        with ct show ?thesis by simp
      qed
    qed
    then obtain vs where us: "us = t @ vs" and post: "post = vs @ c # y" by blast
    from post q have "\<not> (vs \<noteq> [] \<and> isAlnum (hd vs))"
      by (cases vs) auto
    with A us t a p have "t \<in> alnumRuns x"
      by (auto simp add: alnumRuns_def)
    then show ?thesis by simp
  next
    assume B: "x @ us = pre \<and> c # y = us @ t @ post"
    show ?thesis
    proof (cases us)
      case Nil
      with B t have "c \<in> set t" by (cases t) auto
      with ct show ?thesis by simp
    next
      case (Cons u us')
      with B have y: "y = us' @ t @ post" and pre: "pre = x @ c # us'" by auto
      from pre p have "\<not> (us' \<noteq> [] \<and> isAlnum (last us'))"
        by (cases "us' = []") auto
      with y t a q have "t \<in> alnumRuns y"
        by (auto simp add: alnumRuns_def)
      then show ?thesis by simp
    qed
  qed
next
  fix t assume "t \<in> alnumRuns x \<union> alnumRuns y"
  then show "t \<in> alnumRuns (x @ c # y)"
  proof
    assume "t \<in> alnumRuns x"
    then obtain pre post where t: "t \<noteq> []" and a: "list_all isAlnum t"
      and e: "x = pre @ t @ post"
      and p: "\<not> (pre \<noteq> [] \<and> isAlnum (last pre))" and q: "\<not> (post \<noteq> [] \<and> isAlnum (hd post))"
      by (auto simp add: alnumRuns_def)
    have "x @ c # y = pre @ t @ (post @ c # y)"
      using e by simp
    moreover have "\<not> (post @ c # y \<noteq> [] \<and> isAlnum (hd (post @ c # y)))"
      using q c by (cases post) auto
    ultimately show ?thesis
      using t a p unfolding alnumRuns_def by blast
  next
    assume "t \<in> alnumRuns y"
    then obtain pre post where t: "t \<noteq> []" and a: "list_all isAlnum t"
      and e: "y = pre @ t @ post"
      and p: "\<not> (pre \<noteq> [] \<and> isAlnum (last pre))" and q: "\<not> (post \<noteq> [] \<and> isAlnum (hd post))"
      by (auto simp add: alnumRuns_def)
    have "x @ c # y = (x @ c # pre) @ t @ post"
      using e by simp
    moreover have "\<not> (x @ c # pre \<noteq> [] \<and> isAlnum (last (x @ c # pre)))"
      using p c by (cases "pre = []") auto
    ultimately show ?thesis
      using t a q unfolding alnumRuns_def by blast
  qed
qed

lemma alnumRuns_Nil: "alnumRuns [] = {}"
  by (auto simp add: alnumRuns_def)

lemma alnumRuns_dropWhile: "alnumRuns (dropWhile (\<lambda>d. \<not> isAlnum d) y) = alnumRuns y"
proof (induction y)
  case Nil
  then show ?case by simp
next
  case (Cons c y)
  show ?case
  proof (cases "isAlnum c")
    case True
    then show ?thesis by simp
  next
    case False
    from alnumRuns_sep [OF False, of "[]" y] have "alnumRuns (c # y) = alnumRuns y"
      by (simp add: alnumRuns_Nil)
    with False Cons.IH show ?thesis by simp
  qed
qed

lemma splitNonAlnum_runs:
  "list_all isAlnum cur \<Longrightarrow> set (splitNonAlnum cur s) - {[]} = alnumRuns (cur @ s)"
proof (induction cur s rule: splitNonAlnum.induct)
  case (1 cur)
  then show ?case by (simp add: alnumRuns_all)
next
  case (2 cur c cs)
  show ?case
  proof (cases "isAlnum c")
    case True
    with "2.prems" have "list_all isAlnum (cur @ [c])" by simp
    from "2.IH"(1) [OF True this] True show ?thesis by simp
  next
    case False
    have n: "list_all isAlnum ([]::jsstring)" by simp
    from "2.IH"(2) [OF False n]
    have "set (splitNonAlnum [] (dropWhile (\<lambda>d. \<not> isAlnum d) cs)) - {[]} = alnumRuns cs"
      by (simp add: alnumRuns_dropWhile)
    moreover have "set (splitNonAlnum cur (c # cs)) - {[]}
        = ({cur} - {[]}) \<union> (set (splitNonAlnum [] (dropWhile (\<lambda>d. \<not> isAlnum d) cs)) - {[]})"
      using False by auto
    ultimately show ?thesis
      using "2.prems" by (simp add: alnumRuns_sep [OF False] alnumRuns_all)
  qed
qed

text \<open>
  The terms of the code are the maximal alphanumeric runs of the lower-cased query,
  lower-cased once more; a run is made of ASCII letters and digits, so it is lower-cased
  unit by unit. For a query of code units below U+0100 the second lower-casing changes
  nothing.
\<close>

lemma set_queryTerms: "set (queryTerms lib q) = queryTokens lib q"
proof -
  have n: "list_all isAlnum ([]::jsstring)" by simp
  have "set (queryTerms lib q)
      = toLowerCase lib ` (set (splitNonAlnum [] (toLowerCase lib q)) - {[]})"
    by (auto simp add: queryTerms_def set_uniq)
  also have "\<dots> = toLowerCase lib ` alnumRuns (toLowerCase lib q)"
    using splitNonAlnum_runs [OF n, of "toLowerCase lib q"] by simp
  finally show ?thesis by (simp only: queryTokens_def)
qed

lemma toLowerCase_run:
  assumes "list_all (\<lambda>c. c < 0x100) q" and "t \<in> alnumRuns (toLowerCase lib q)"
  shows "toLowerCase lib t = t"
proof -
  from assms(2) have a: "\<forall>c\<in>set t. isAlnum c"
    by (simp add: alnumRuns_def list_all_iff)
  from assms obtain pre post where "map lowerLatin1 q = pre @ t @ post"
    by (auto simp add: alnumRuns_def toLowerCase_latin1)
  then have "set t \<subseteq> lowerLatin1 ` set q"
    by (auto dest: arg_cong [where f = set])
  then have "\<forall>c\<in>set t. lowerLatin1 c = c"
    by (auto simp add: lowerLatin1_idem)
  then have "map lowerLatin1 t = t"
    by (simp add: map_idI)
  with toLowerCase_alnum [OF a, of lib] show ?thesis by simp
qed

lemma queryTokens_latin1:
  assumes "list_all (\<lambda>c. c < 0x100) q"
  shows "queryTokens lib q = alnumRuns (toLowerCase lib q)"
  unfolding queryTokens_def using toLowerCase_run [OF assms] by (auto simp add: image_iff)

text \<open>On such a query the two revisions compute the same terms.\<close>

lemma queryTerms_r2_latin1:
  assumes "list_all (\<lambda>c. c < 0x100) q"
  shows "queryTerms_r2 lib q = queryTerms lib q"
proof -
  have n: "list_all isAlnum ([]::jsstring)" by simp
  have "toLowerCase lib p = p"
    if "p \<in> set (filter (\<lambda>s. s \<noteq> []) (splitNonAlnum [] (toLowerCase lib q)))" for p
  proof -
    from that have "p \<in> set (splitNonAlnum [] (toLowerCase lib q)) - {[]}"
      by simp
    then have "p \<in> alnumRuns (toLowerCase lib q)"
      using splitNonAlnum_runs [OF n, of "toLowerCase lib q"] by simp
    with assms show ?thesis by (rule toLowerCase_run)
  qed
  then have "map (toLowerCase lib) (filter (\<lambda>s. s \<noteq> []) (splitNonAlnum [] (toLowerCase lib q)))
      = filter (\<lambda>s. s \<noteq> []) (splitNonAlnum [] (toLowerCase lib q))"
    by (rule map_idI)
  then show ?thesis
    by (simp only: queryTerms_def queryTerms_r2_def Let_def)
qed

text \<open>
  In a text of code units below U+0100 the lower-casing keeps every position, so a
  whole-word occurrence in the lower-cased text is an occurrence, without regard to
  letter case, at the same position of the text itself.
\<close>

lemma wholeWordAt_latin1:
  assumes "list_all (\<lambda>c. c < 0x100) txt"
  shows "wholeWordAt isWordChar t (toLowerCase lib txt) i
       = (i + length t \<le> length txt
          \<and> map lowerLatin1 (take (length t) (drop i txt)) = t
          \<and> \<not> (0 < i \<and> isWordChar (txt ! (i - 1)))
          \<and> \<not> (i + length t < length txt \<and> isWordChar (txt ! (i + length t))))"
proof (cases "i + length t \<le> length txt")
  case False
  then show ?thesis
    by (simp add: wholeWordAt_def toLowerCase_latin1 [OF assms])
next
  case True
  then have "0 < i \<Longrightarrow> i - 1 < length txt"
    by linarith
  then have a: "0 < i \<Longrightarrow> map lowerLatin1 txt ! (i - 1) = lowerLatin1 (txt ! (i - 1))"
    by (simp only: nth_map)
  show ?thesis
    using True a
    by (auto simp add: wholeWordAt_def toLowerCase_latin1 [OF assms] take_map drop_map
        isWordChar_lowerLatin1)
qed

lemma specScore_terms:
  "specScore inWord lib q txt =
     (\<Sum>t | t \<in> set (queryTerms lib q) \<and> 3 \<le> length t.
        of_nat (wholeWordCount inWord t (toLowerCase lib txt)))
     + (1 / 4) * of_nat (card {b \<in> set bonusTerms. sublist b (toLowerCase lib txt)})"
  by (simp only: specScore_def set_queryTerms)

lemma scoreOf_specScore:
  "scoreOf lib (queryTerms lib q) txt = specScore isWordChar lib q txt"
proof -
  let ?lower = "toLowerCase lib txt"
  have a: "scoreOf lib (queryTerms lib q) txt
      = sum_list (map (\<lambda>t. if 3 \<le> length t
            then of_nat (countMatches t ?lower 0) else 0) (queryTerms lib q))
        + (1 / 4) * of_nat (length (filter (includes' ?lower) bonusTerms))"
    unfolding scoreOf_def Let_def foldl_hits foldl_bonus by simp
  have b: "sum_list (map (\<lambda>t. if 3 \<le> length t
        then of_nat (countMatches t ?lower 0) else (0::rat)) (queryTerms lib q))
      = (\<Sum>t | t \<in> set (queryTerms lib q) \<and> 3 \<le> length t.
           of_nat (countMatches t ?lower 0))"
    by (rule sum_list_filtered [OF distinct_queryTerms, of "\<lambda>t. 3 \<le> length t"
          "\<lambda>t. of_nat (countMatches t ?lower 0)"])
  have c: "(\<Sum>t | t \<in> set (queryTerms lib q) \<and> 3 \<le> length t.
           of_nat (countMatches t ?lower 0))
      = (\<Sum>t | t \<in> set (queryTerms lib q) \<and> 3 \<le> length t.
           (of_nat (wholeWordCount isWordChar t ?lower) :: rat))"
  proof (rule sum.cong)
    fix t assume "t \<in> {t \<in> set (queryTerms lib q). 3 \<le> length t}"
    then have "t \<in> set (queryTerms lib q)" by simp
    then show "(of_nat (countMatches t ?lower 0) :: rat)
        = of_nat (wholeWordCount isWordChar t ?lower)"
      by (simp only: hits_wholeWordCount)
  qed (rule refl)
  have d: "length (filter (includes' ?lower) bonusTerms)
      = card {b \<in> set bonusTerms. sublist b ?lower}"
  proof -
    have "includes' ?lower = (\<lambda>b. sublist b ?lower)"
      by (rule ext) (rule includes'_sublist)
    then show ?thesis
      by (simp only: card_filtered [OF distinct_bonusTerms])
  qed
  show ?thesis
    by (simp only: a b c d specScore_terms)
qed

lemma sum_list_if_filter:
  "sum_list (map (\<lambda>t. if P t then f t else (0::rat)) ts) = sum_list (map f (filter P ts))"
  by (induction ts) simp_all

lemma wholeWordCount_filter:
  "wholeWordCount inWord t lower
     = length (filter (wholeWordAt inWord t lower) [0..<Suc (length lower)])"
proof -
  have "wholeWordAt inWord t lower i \<Longrightarrow> i < Suc (length lower)" for i
    unfolding wholeWordAt_def by linarith
  then have "{i. wholeWordAt inWord t lower i}
      = set (filter (wholeWordAt inWord t lower) [0..<Suc (length lower)])"
    by (auto simp del: upt_Suc)
  moreover have "distinct (filter (wholeWordAt inWord t lower) [0..<Suc (length lower)])"
    by simp
  ultimately show ?thesis
    by (simp only: wholeWordCount_def distinct_card)
qed

lemma specScore_eval:
  "specScore inWord lib q txt
     = sum_list (map (\<lambda>t. of_nat (length (filter (wholeWordAt inWord t (toLowerCase lib txt))
                                    [0..<Suc (length (toLowerCase lib txt))])))
         (filter (\<lambda>t. 3 \<le> length t) (queryTerms lib q)))
       + (1 / 4) * of_nat (length (filter (includes' (toLowerCase lib txt)) bonusTerms))"
proof -
  let ?lower = "toLowerCase lib txt"
  have a: "(\<Sum>t | t \<in> set (queryTerms lib q) \<and> 3 \<le> length t.
        (of_nat (wholeWordCount inWord t ?lower) :: rat))
      = sum_list (map (\<lambda>t. if 3 \<le> length t then of_nat (wholeWordCount inWord t ?lower) else 0)
          (queryTerms lib q))"
    by (rule sum_list_filtered [OF distinct_queryTerms, of "\<lambda>t. 3 \<le> length t"
          "\<lambda>t. of_nat (wholeWordCount inWord t ?lower)", symmetric])
  have b: "sum_list (map (\<lambda>t. if 3 \<le> length t
        then of_nat (wholeWordCount inWord t ?lower) else (0::rat)) (queryTerms lib q))
      = sum_list (map (\<lambda>t. of_nat (wholeWordCount inWord t ?lower))
          (filter (\<lambda>t. 3 \<le> length t) (queryTerms lib q)))"
    by (rule sum_list_if_filter)
  have c: "(\<lambda>t. (of_nat (wholeWordCount inWord t ?lower) :: rat))
      = (\<lambda>t. of_nat (length (filter (wholeWordAt inWord t ?lower) [0..<Suc (length ?lower)])))"
    by (rule ext) (simp only: wholeWordCount_filter)
  have d: "card {b \<in> set bonusTerms. sublist b ?lower}
      = length (filter (includes' ?lower) bonusTerms)"
  proof -
    have "includes' ?lower = (\<lambda>b. sublist b ?lower)"
      by (rule ext) (rule includes'_sublist)
    then show ?thesis
      by (simp only: card_filtered [OF distinct_bonusTerms])
  qed
  have "specScore inWord lib q txt
      = sum_list (map (\<lambda>t. if 3 \<le> length t then of_nat (wholeWordCount inWord t ?lower) else 0)
          (queryTerms lib q))
        + (1 / 4) * of_nat (length (filter (includes' ?lower) bonusTerms))"
    by (simp only: specScore_terms a d)
  also have "\<dots> = sum_list (map (\<lambda>t. of_nat (wholeWordCount inWord t ?lower))
          (filter (\<lambda>t. 3 \<le> length t) (queryTerms lib q)))
        + (1 / 4) * of_nat (length (filter (includes' ?lower) bonusTerms))"
    by (simp only: b)
  finally show ?thesis
    by (simp only: c)
qed

text \<open>
  Claim C3, as the code has it. The query terms are the distinct maximal alphanumeric
  runs of the lower-cased query (lower-cased once more, which changes nothing for a
  query of code units below U+0100). The score of a document is the number of whole-word
  occurrences of the terms of length three or more in the lower-cased document, where an
  occurrence is whole when no word character adjoins it (a letter, a digit or the
  underscore: the word boundary of the regular expression), plus 0.25 for each of the
  seven bonus terms that is a substring of the lower-cased text. In a document of code
  units below U+0100 these are the occurrences, without regard to letter case, in the
  document itself. The scored documents are the corpus with these scores, sorted by
  descending score, and the documents of each score keep the order of the corpus.
\<close>

theorem relevance_scoring:
  "set (queryTerms lib question) = queryTokens lib question
   \<and> (list_all (\<lambda>c. c < 0x100) question \<longrightarrow>
        set (queryTerms lib question) = alnumRuns (toLowerCase lib question))
   \<and> scoreOf lib (queryTerms lib question) txt = specScore isWordChar lib question txt
   \<and> (list_all (\<lambda>c. c < 0x100) txt \<longrightarrow>
        (\<forall>t i. wholeWordAt isWordChar t (toLowerCase lib txt) i
           = (i + length t \<le> length txt
              \<and> map lowerLatin1 (take (length t) (drop i txt)) = t
              \<and> \<not> (0 < i \<and> isWordChar (txt ! (i - 1)))
              \<and> \<not> (i + length t < length txt \<and> isWordChar (txt ! (i + length t))))))
   \<and> mset (scoredDocs lib corpus question)
       = mset (map (\<lambda>(f, t). \<lparr>file' = f, text' = t,
                               score = specScore isWordChar lib question t\<rparr>)
           corpus)
   \<and> sorted_wrt (\<lambda>a b. score b \<le> score a) (scoredDocs lib corpus question)
   \<and> (\<forall>k. filter (\<lambda>d. score d = k) (scoredDocs lib corpus question)
            = filter (\<lambda>d. score d = k)
                (map (\<lambda>(f, t). \<lparr>file' = f, text' = t,
                                 score = specScore isWordChar lib question t\<rparr>)
                   corpus))"
proof -
  let ?mk = "\<lambda>(f, t). \<lparr>file' = f, text' = t, score = specScore isWordChar lib question t\<rparr>"
  have mk: "(\<lambda>(f, t). \<lparr>file' = f, text' = t, score = scoreOf lib (queryTerms lib question) t\<rparr>)
      = ?mk"
    by (simp only: scoreOf_specScore)
  have sd: "scoredDocs lib corpus question = sort_key (\<lambda>d. - score d) (map ?mk corpus)"
    by (simp only: scoredDocs_def Let_def mk)
  have "sorted (map (\<lambda>d. - score d) (scoredDocs lib corpus question))"
    by (simp only: sd sorted_sort_key)
  then have srt: "sorted_wrt (\<lambda>a b. score b \<le> score a) (scoredDocs lib corpus question)"
    by (simp add: sorted_map)
  have stable: "filter (\<lambda>d. score d = k) (scoredDocs lib corpus question)
      = filter (\<lambda>d. score d = k) (map ?mk corpus)" for k
    using sort_key_stable [of "\<lambda>d. - score d" "- k" "map ?mk corpus"]
    by (simp add: sd)
  have ms: "mset (scoredDocs lib corpus question) = mset (map ?mk corpus)"
    by (simp only: sd mset_sort)
  have lat: "list_all (\<lambda>c. c < 0x100) question \<longrightarrow>
        set (queryTerms lib question) = alnumRuns (toLowerCase lib question)"
    by (simp add: set_queryTerms queryTokens_latin1)
  have ww: "list_all (\<lambda>c. c < 0x100) txt \<longrightarrow>
        (\<forall>t i. wholeWordAt isWordChar t (toLowerCase lib txt) i
           = (i + length t \<le> length txt
              \<and> map lowerLatin1 (take (length t) (drop i txt)) = t
              \<and> \<not> (0 < i \<and> isWordChar (txt ! (i - 1)))
              \<and> \<not> (i + length t < length txt \<and> isWordChar (txt ! (i + length t)))))"
    using wholeWordAt_latin1 [of "txt" _ lib] by blast
  from set_queryTerms lat scoreOf_specScore ww srt stable ms show ?thesis by blast
qed

theorem relevance_scoring_witness:
  "list_all (\<lambda>c. c < 0x100) (str ''parking district'')
   \<and> list_all (\<lambda>c. c < 0x100) (str ''Parking is permitted in District B.'')
   \<and> set (queryTerms (\<lambda>s. s) (str ''parking district'')) = {str ''parking'', str ''district''}
   \<and> specScore isWordChar (\<lambda>s. s) (str ''parking district'')
        (str ''Parking is permitted in District B.'') = 11 / 4
   \<and> specScore isWordChar (\<lambda>s. s) (str ''parking district'') (str ''No mention of pets.'') = 0
   \<and> map file' (scoredDocs (\<lambda>s. s) demoCorpus (str ''parking district''))
       = [str ''a.txt'', str ''b.txt'']"
proof -
  have l: "list_all (\<lambda>c. c < 0x100) (str ''parking district'')"
    "list_all (\<lambda>c. c < 0x100) (str ''Parking is permitted in District B.'')"
    by (simp_all add: str_def)
  have t: "set (queryTerms (\<lambda>s. s) (str ''parking district''))
      = {str ''parking'', str ''district''}"
    by code_simp
  have a: "scoreOf (\<lambda>s. s) (queryTerms (\<lambda>s. s) (str ''parking district''))
      (str ''Parking is permitted in District B.'') = 11 / 4"
    by code_simp
  have b: "scoreOf (\<lambda>s. s) (queryTerms (\<lambda>s. s) (str ''parking district''))
      (str ''No mention of pets.'') = 0"
    by code_simp
  have c: "map file' (scoredDocs (\<lambda>s. s) demoCorpus (str ''parking district''))
      = [str ''a.txt'', str ''b.txt'']"
    by code_simp
  from relevance_scoring [of "\<lambda>s. s" "str ''parking district''"
      "str ''Parking is permitted in District B.''"]
    relevance_scoring [of "\<lambda>s. s" "str ''parking district''" "str ''No mention of pets.''"]
    l t a b c
  show ?thesis by simp
qed

text \<open>
  With occurrences bounded by alphanumeric characters only, as the specification words
  it, the claim fails: in \<^verbatim>\<open>parking_lot\<close> the term \<^verbatim>\<open>parking\<close> is followed by an
  underscore, which the word boundary counts as part of the word.
\<close>

theorem relevance_scoring_counterexample:
  "scoreOf (\<lambda>s. s) (queryTerms (\<lambda>s. s) (str ''parking'')) (str ''parking_lot'') = 1 / 4
   \<and> specScore isAlnum (\<lambda>s. s) (str ''parking'') (str ''parking_lot'') = 5 / 4
   \<and> map score (scoredDocs (\<lambda>s. s) [(str ''a.txt'', str ''parking_lot'')] (str ''parking''))
       = [1 / 4]
   \<and> scoreOf (\<lambda>s. s) (queryTerms (\<lambda>s. s) (str ''parking'')) (str ''parking_lot'')
       \<noteq> specScore isAlnum (\<lambda>s. s) (str ''parking'') (str ''parking_lot'')"
proof -
  have a: "scoreOf (\<lambda>s. s) (queryTerms (\<lambda>s. s) (str ''parking'')) (str ''parking_lot'')
      = 1 / 4"
    by code_simp
  have b: "specScore isAlnum (\<lambda>s. s) (str ''parking'') (str ''parking_lot'') = 5 / 4"
    unfolding specScore_eval by code_simp
  have c: "map score
      (scoredDocs (\<lambda>s. s) [(str ''a.txt'', str ''parking_lot'')] (str ''parking'')) = [1 / 4]"
    by code_simp
  from a b c show ?thesis by simp
qed

end
